theory Spec2Isabelle
  imports Complex_Main "HOL-Library.Sublist"
begin

section \<open>Characters and strings\<close>

text \<open>
  The converter works on Python strings. They are modelled as lists of characters, a
  character being a code point below 256. \<open>isspace\<close> is Python's \<^verbatim>\<open>str.isspace\<close>
  on that range: the ASCII controls 9 to 13 and 28 to 31, the space, and the code points
  0x85 and 0xA0. \<open>isupper\<close> and \<open>upper_char\<close> are \<^verbatim>\<open>str.isupper\<close> and
  \<^verbatim>\<open>str.upper\<close> on the ASCII letters, which is where the converter looks at their
  results: it compares uppercased characters with the ASCII letters of note names and
  numerals only.
\<close>

definition whitespace :: "char list" where
  "whitespace = [CHR 0x09, CHR 0x0A, CHR 0x0B, CHR 0x0C, CHR 0x0D,
                 CHR 0x1C, CHR 0x1D, CHR 0x1E, CHR 0x1F, CHR 0x20, CHR 0x85, CHR 0xA0]"

definition isspace :: "char \<Rightarrow> bool" where
  "isspace c = (c \<in> set whitespace)"

definition lower_letters :: string where
  "lower_letters = ''abcdefghijklmnopqrstuvwxyz''"

definition upper_letters :: string where
  "upper_letters = ''ABCDEFGHIJKLMNOPQRSTUVWXYZ''"

definition isupper :: "char \<Rightarrow> bool" where
  "isupper c = (c \<in> set upper_letters)"

definition upper_char :: "char \<Rightarrow> char" where
  "upper_char c = (case map_of (zip lower_letters upper_letters) c of
                     Some u \<Rightarrow> u | None \<Rightarrow> c)"

definition upper :: "string \<Rightarrow> string" where
  "upper s = map upper_char s"

text \<open>\<^verbatim>\<open>s.strip()\<close>: leading and trailing whitespace removed.\<close>

definition strip :: "string \<Rightarrow> string" where
  "strip s = rev (dropWhile isspace (rev (dropWhile isspace s)))"

text \<open>\<^verbatim>\<open>s.startswith(p)\<close>, compared character by character.\<close>

fun startswith :: "string \<Rightarrow> string \<Rightarrow> bool" where
  "startswith s [] = True"
| "startswith [] (p # ps) = False"
| "startswith (c # cs) (p # ps) = (c = p \<and> startswith cs ps)"

text \<open>\<^verbatim>\<open>s.index(ch)\<close> for a character that occurs in \<open>s\<close>: the first position.\<close>

fun index_of :: "string \<Rightarrow> char \<Rightarrow> nat" where
  "index_of [] ch = 0"
| "index_of (c # cs) ch = (if c = ch then 0 else Suc (index_of cs ch))"

section \<open>Pitch helpers\<close>

datatype py_error = TypeError | IndexError

definition PC_TO_SEMI :: "(char \<times> int) list" where
  "PC_TO_SEMI = [(CHR ''C'', 0), (CHR ''D'', 2), (CHR ''E'', 4), (CHR ''F'', 5),
                 (CHR ''G'', 7), (CHR ''A'', 9), (CHR ''B'', 11)]"

definition MAJOR_INTERVALS :: "int list" where
  "MAJOR_INTERVALS = [0, 2, 4, 5, 7, 9, 11]"

definition MINOR_INTERVALS :: "int list" where
  "MINOR_INTERVALS = [0, 2, 3, 5, 7, 8, 10]"

definition SEMI_TO_PC :: "string list" where
  "SEMI_TO_PC = [''C'', ''Db'', ''D'', ''Eb'', ''E'', ''F'', ''F#'', ''G'', ''Ab'', ''A'',
                 ''Bb'', ''B'']"

definition NUMERAL_TO_DEGREE :: "(string \<times> nat) list" where
  "NUMERAL_TO_DEGREE = [(''I'', 0), (''II'', 1), (''III'', 2), (''IV'', 3), (''V'', 4),
                        (''VI'', 5), (''VII'', 6)]"

text \<open>The loop of \<^verbatim>\<open>parse_pitch_class\<close> over the characters after the letter.\<close>

fun accidentals :: "int \<Rightarrow> string \<Rightarrow> int" where
  "accidentals semi [] = semi"
| "accidentals semi (ch # rest) =
     (if ch = CHR ''#'' then accidentals (semi + 1) rest
      else if ch = CHR ''b'' then accidentals (semi - 1) rest
      else accidentals semi rest)"

definition parse_pitch_class :: "string \<Rightarrow> int option" where
  "parse_pitch_class s0 =
     (let s = strip s0 in
      case s of
        [] \<Rightarrow> None
      | c # rest \<Rightarrow>
          (case map_of PC_TO_SEMI (upper_char c) of
             None \<Rightarrow> None
           | Some semi \<Rightarrow> Some (accidentals semi rest mod 12)))"

definition scale_semitones :: "int \<Rightarrow> string \<Rightarrow> int list" where
  "scale_semitones root_semi scale =
     (let intervals = (if scale = ''major'' then MAJOR_INTERVALS else MINOR_INTERVALS)
      in map (\<lambda>i. (root_semi + i) mod 12) intervals)"

section \<open>Data types\<close>

record KeyState =
  root_name :: string
  scale_name :: string

definition semitone :: "KeyState \<Rightarrow> int option" where
  "semitone k = parse_pitch_class (root_name k)"

record RawEvent =
  beat :: real
  measure_no :: int
  roman :: string
  key :: KeyState

section \<open>RomanText parser: key tokens\<close>

definition parse_key_str :: "string \<Rightarrow> KeyState option" where
  "parse_key_str s0 =
     (let s = strip s0 in
      case s of
        [] \<Rightarrow> None
      | c # rest \<Rightarrow>
          if map_of PC_TO_SEMI (upper_char c) = None then None
          else
            (let scale = (if isupper c then ''major'' else ''minor'');
                 root = upper_char c # rest
             in Some \<lparr>root_name = root, scale_name = scale\<rparr>))"

text \<open>\<^verbatim>\<open>looks_like_chord\<close>, the test by which the tokeniser takes a token for a chord.\<close>

definition looks_like_chord :: "string \<Rightarrow> bool" where
  "looks_like_chord token =
     (if token = [] then False
      else if token \<in> set [''N'', ''N6'', ''It6'', ''Ger6/5'', ''Ger7'', ''Fr4/3'', ''Fr6'',
                             ''vo'', ''vo6'']
        then True
      else token ! 0 \<in> set [CHR ''I'', CHR ''i'', CHR ''V'', CHR ''v'', CHR ''b'', CHR ''#''])"

section \<open>Applied chord resolution\<close>

text \<open>
  \<^verbatim>\<open>is_supported_roman\<close>. The slice \<^verbatim>\<open>s[:s.index('[')]\<close> is \<open>take\<close>, and
  \<^verbatim>\<open>s[1]\<close> is read only after the length test.
\<close>

definition is_supported_roman :: "string \<Rightarrow> bool" where
  "is_supported_roman s0 =
     (if s0 = [] then False
      else
        let s = (if CHR ''['' \<in> set s0 then strip (take (index_of s0 (CHR ''['')) s0) else s0)
        in
          if s = [] then False
          else if startswith s ''N'' then s \<in> set [''N'', ''N6'']
          else if startswith s ''It'' \<or> startswith s ''Ger'' \<or> startswith s ''Fr''
            then s \<in> set [''It6'', ''Ger6/5'', ''Ger7'', ''Fr4/3'', ''Fr6'']
          else if s ! 0 \<in> set [CHR ''b'', CHR ''#'']
            then 1 < length s \<and> upper_char (s ! 1) \<in> set [CHR ''I'', CHR ''V'']
          else s ! 0 \<in> set [CHR ''I'', CHR ''i'', CHR ''V'', CHR ''v''])"

text \<open>
  \<^verbatim>\<open>_skip_reason\<close> formats the symbol with Python's \<^verbatim>\<open>repr\<close>, a builtin that is
  taken as the parameter \<open>repr\<close>.
\<close>

definition skip_reason :: "(string \<Rightarrow> string) \<Rightarrow> string \<Rightarrow> string" where
  "skip_reason repr s =
     (if startswith s ''N'' \<and> s \<notin> set [''N'', ''N6'']
        then ''extended Neapolitan '' @ repr s @ '' (only N and N6 are supported)''
      else if (startswith s ''It'' \<or> startswith s ''Ger'' \<or> startswith s ''Fr'')
              \<and> s \<notin> set [''It6'', ''Ger6/5'', ''Ger7'', ''Fr4/3'', ''Fr6'']
        then ''unrecognized augmented-sixth variant '' @ repr s
      else ''unrecognized chord symbol '' @ repr s)"

text \<open>The loop of \<^verbatim>\<open>tonicize\<close> that collects the leading I and V characters.\<close>

fun numeral_run :: "string \<Rightarrow> string \<Rightarrow> string" where
  "numeral_run acc [] = acc"
| "numeral_run acc (c # cs) =
     (if c \<in> set [CHR ''I'', CHR ''V''] then numeral_run (acc @ [c]) cs else acc)"

text \<open>
  \<^verbatim>\<open>tonicize\<close>. \<^verbatim>\<open>key.semitone()\<close> is \<^verbatim>\<open>None\<close> for a root that does not start with
  a note letter, and \<^verbatim>\<open>scale_semitones\<close> then adds an integer to it: a TypeError.
\<close>

definition tonicize :: "KeyState \<Rightarrow> string \<Rightarrow> py_error + KeyState" where
  "tonicize k target_roman =
     (let (semitone_offset, target) =
            (if startswith target_roman ''b'' then (- 1, drop 1 target_roman)
             else if startswith target_roman ''#'' then (1, drop 1 target_roman)
             else (0 :: int, target_roman))
      in
        case target of
          [] \<Rightarrow> Inr k
        | t0 # _ \<Rightarrow>
            let target_scale = (if isupper t0 then ''major'' else ''minor'');
                numeral_str = numeral_run [] (upper target)
            in
              (case map_of NUMERAL_TO_DEGREE numeral_str of
                 None \<Rightarrow> Inr k
               | Some degree_idx \<Rightarrow>
                   (case semitone k of
                      None \<Rightarrow> Inl TypeError
                    | Some root_semi \<Rightarrow>
                        let semis = scale_semitones root_semi (scale_name k) in
                        if length semis \<le> degree_idx then Inr k
                        else
                          let target_semi = (semis ! degree_idx + semitone_offset) mod 12;
                              target_root = SEMI_TO_PC ! nat target_semi
                          in Inr \<lparr>root_name = target_root, scale_name = target_scale\<rparr>)))"

text \<open>
  The search loop of \<^verbatim>\<open>resolve_applied\<close>: \<^verbatim>\<open>range(len(roman) - 1, 0, -1)\<close> runs from
  the last position down to position 1; \<open>find_target roman n\<close> examines the
  positions \<open>n, n - 1, \<dots>, 1\<close> and stops at the first hit.
\<close>

fun find_target :: "string \<Rightarrow> nat \<Rightarrow> nat option" where
  "find_target roman_sym 0 = None"
| "find_target roman_sym (Suc n) =
     (let pos = Suc n in
      if roman_sym ! pos = CHR ''/'' \<and> pos + 1 < length roman_sym
      then
        (if roman_sym ! (pos + 1) \<in>
              set [CHR ''I'', CHR ''i'', CHR ''V'', CHR ''v'', CHR ''b'', CHR ''#'']
         then Some pos
         else find_target roman_sym n)
      else find_target roman_sym n)"

definition resolve_applied :: "string \<Rightarrow> KeyState \<Rightarrow> py_error + (string \<times> KeyState)" where
  "resolve_applied roman_sym k =
     (case find_target roman_sym (length roman_sym - 1) of
        None \<Rightarrow> Inr (roman_sym, k)
      | Some idx \<Rightarrow>
          (let chord_part = take idx roman_sym;
               target_part = drop (idx + 1) roman_sym
           in case tonicize k target_part of
                Inl e \<Rightarrow> Inl e
              | Inr new_key \<Rightarrow> Inr (chord_part, new_key)))"

definition C_major :: KeyState where
  "C_major = \<lparr>root_name = ''C'', scale_name = ''major''\<rparr>"

definition G_major :: KeyState where
  "G_major = \<lparr>root_name = ''G'', scale_name = ''major''\<rparr>"

definition Eb_major :: KeyState where
  "Eb_major = \<lparr>root_name = ''Eb'', scale_name = ''major''\<rparr>"

text \<open>
  A position of a chord symbol is a target delimiter when it holds a \<open>/\<close> that is
  immediately followed by one of \<open>I i V v b #\<close>.
\<close>

definition target_delimiter :: "string \<Rightarrow> nat \<Rightarrow> bool" where
  "target_delimiter s p =
     (p + 1 < length s \<and> s ! p = CHR ''/'' \<and> s ! (p + 1) \<in> set ''IiVvb#'')"

section \<open>Numbers of the output document\<close>

text \<open>
  Beats and durations are Python floats. They are modelled as exact reals: comparisons
  are the source's, while the rounding error of float addition and subtraction is not
  represented. A number of the JSON output is either an integer or a float, since the
  builder writes whole values as integers.
\<close>

datatype num_val = IntVal int | FloatVal real

fun num_real :: "num_val \<Rightarrow> real" where
  "num_real (IntVal i) = of_int i"
| "num_real (FloatVal x) = x"

text \<open>
  \<^verbatim>\<open>round(x, n)\<close>: the nearest multiple of \<open>10\<^sup>-\<^sup>n\<close>, a tie going to the even
  multiple.
\<close>

definition round_ndigits :: "real \<Rightarrow> nat \<Rightarrow> real" where
  "round_ndigits x n =
     (let y = x * 10 ^ n;
          f = floor y;
          d = y - of_int f
      in (if d < 1 / 2 then of_int f
          else if 1 / 2 < d then of_int (f + 1)
          else if even f then of_int f
          else of_int (f + 1)) / 10 ^ n)"

text \<open>\<^verbatim>\<open>int(x)\<close> truncates towards zero.\<close>

definition int_of_float :: "real \<Rightarrow> int" where
  "int_of_float x = (if 0 \<le> x then floor x else ceiling x)"

text \<open>\<^verbatim>\<open>int(v) if v == int(v) else v\<close>.\<close>

definition int_if_whole :: "real \<Rightarrow> num_val" where
  "int_if_whole v = (if v = of_int (int_of_float v) then IntVal (int_of_float v) else FloatVal v)"

section \<open>The Orbital document\<close>

datatype chord_op =
    SetKey num_val string string
  | SetRoman num_val string
  | SetChord num_val "int list" int

datatype track_note = CurrentChord num_val | ChordTone int num_val

record track =
  track_name :: string
  presetFilename :: string
  numVoices :: int
  octave :: int
  voicing :: string
  sustainFraction :: real
  track_notes :: "track_note list"

record score_tracks =
  bpm :: real
  totalBeats :: num_val
  loop :: bool
  score_key :: KeyState
  chordEvents :: "chord_op list"
  tracks :: "track list"

record document =
  name :: string
  scoreTracks :: score_tracks

definition empty_json ::
  "string \<Rightarrow> KeyState \<Rightarrow> real \<Rightarrow> bool \<Rightarrow> string \<Rightarrow> string option \<Rightarrow> int \<Rightarrow> int \<Rightarrow> real \<Rightarrow> real
     \<Rightarrow> document" where
  "empty_json title initial_key bpm_v loop_v preset bass_preset octave_v voices sustain
       total_beats =
     \<lparr>name = title,
      scoreTracks =
        \<lparr>bpm = bpm_v,
         totalBeats = FloatVal (max (round_ndigits total_beats 1) 4),
         loop = loop_v,
         score_key = initial_key,
         chordEvents = [SetChord (IntVal 0) [0, 2, 4] 0],
         tracks = []\<rparr>\<rparr>"

section \<open>Building the document\<close>

text \<open>The deduplication loop; \<open>deduped\<close> is the list built so far.\<close>

fun dedup_loop :: "RawEvent list \<Rightarrow> RawEvent list \<Rightarrow> RawEvent list" where
  "dedup_loop deduped [] = deduped"
| "dedup_loop deduped (ev # rest) =
     (if deduped \<noteq> [] \<and> \<bar>beat (last deduped) - beat ev\<bar> < 1 / 10 ^ 9
      then dedup_loop (deduped[length deduped - 1 := ev]) rest
      else dedup_loop (deduped @ [ev]) rest)"

definition dedup_events :: "RawEvent list \<Rightarrow> RawEvent list" where
  "dedup_events events = dedup_loop [] events"

text \<open>The shift that puts the first event at beat 0, with the new total length.\<close>

definition shift_events :: "real \<Rightarrow> RawEvent list \<Rightarrow> real \<Rightarrow> RawEvent list \<times> real" where
  "shift_events shift deduped total_beats =
     (if 1 / 10 ^ 9 < \<bar>shift\<bar>
      then (map (\<lambda>e. \<lparr>beat = beat e - shift, measure_no = measure_no e,
                         roman = roman e, key = key e\<rparr>) deduped,
            total_beats - shift)
      else (deduped, total_beats))"

text \<open>
  The filter of short events. The loop runs over the indices \<open>1, \<dots>, len - 1\<close> of the
  list as it was before the pass and reads the beat of the successor from that list.
\<close>

definition short_step :: "real \<Rightarrow> real \<Rightarrow> RawEvent list \<Rightarrow> RawEvent list \<Rightarrow> nat \<Rightarrow> RawEvent list"
  where
  "short_step min_duration total_beats deduped filtered i =
     (let ev = deduped ! i;
          next_beat = (if i + 1 < length deduped then beat (deduped ! (i + 1)) else total_beats);
          duration = next_beat - beat ev
      in if min_duration \<le> duration then filtered @ [ev] else filtered)"

definition filter_short :: "real \<Rightarrow> real \<Rightarrow> RawEvent list \<Rightarrow> RawEvent list" where
  "filter_short min_duration total_beats deduped =
     (if 0 < min_duration \<and> 1 < length deduped
      then foldl (short_step min_duration total_beats deduped) [deduped ! 0]
             [1 ..< length deduped]
      else deduped)"

text \<open>
  The emission loop; \<open>prev_key\<close> is the key most recently emitted. An error of
  \<^verbatim>\<open>resolve_applied\<close> ends the run.
\<close>

fun emit_chord_events :: "KeyState \<Rightarrow> RawEvent list \<Rightarrow> py_error + chord_op list" where
  "emit_chord_events prev_key [] = Inr []"
| "emit_chord_events prev_key (ev # rest) =
     (let beat_val = int_if_whole (round_ndigits (beat ev) 6) in
      case resolve_applied (roman ev) (key ev) of
        Inl err \<Rightarrow> Inl err
      | Inr (chord_roman, resolved_key) \<Rightarrow>
          if resolved_key \<noteq> prev_key
          then (case emit_chord_events resolved_key rest of
                  Inl err \<Rightarrow> Inl err
                | Inr ops \<Rightarrow>
                    Inr (SetKey beat_val (root_name resolved_key) (scale_name resolved_key)
                         # SetRoman beat_val chord_roman # ops))
          else (case emit_chord_events prev_key rest of
                  Inl err \<Rightarrow> Inl err
                | Inr ops \<Rightarrow> Inr (SetRoman beat_val chord_roman # ops)))"

text \<open>
  The note durations. \<^verbatim>\<open>sorted(set(xs))\<close> is the sorted list of the distinct values
  of \<open>xs\<close>.
\<close>

definition gap_durations :: "real list \<Rightarrow> num_val list" where
  "gap_durations event_beats =
     concat (map (\<lambda>i. let dur = round_ndigits (event_beats ! (i + 1) - event_beats ! i) 6
                       in if 0 < dur then [int_if_whole dur] else [])
                 [0 ..< length event_beats - 1])"

definition note_durations :: "RawEvent list \<Rightarrow> real \<Rightarrow> num_val list" where
  "note_durations deduped total_beats =
     (let event_beats0 = sort (remdups (map (\<lambda>e. round_ndigits (beat e) 6) deduped));
          event_beats1 = event_beats0 @ [round_ndigits total_beats 6];
          event_beats = sort (remdups event_beats1);
          durations = gap_durations event_beats
      in if durations = [] then [FloatVal (round_ndigits total_beats 6)] else durations)"

definition build_tracks ::
  "string \<Rightarrow> string option \<Rightarrow> int \<Rightarrow> int \<Rightarrow> real \<Rightarrow> num_val list \<Rightarrow> track list" where
  "build_tracks preset bass_preset octave_v voices sustain durations =
     [\<lparr>track_name = ''Chords'', presetFilename = preset, numVoices = voices,
       octave = octave_v, voicing = ''open'', sustainFraction = sustain,
       track_notes = map CurrentChord durations\<rparr>]
     @ (case bass_preset of
          None \<Rightarrow> []
        | Some bp \<Rightarrow>
            if bp = [] then []
            else [\<lparr>track_name = ''Bass'', presetFilename = bp, numVoices = 2,
                   octave = octave_v - 1, voicing = ''closed'', sustainFraction = 7 / 10,
                   track_notes = map (ChordTone 0) durations\<rparr>])"

definition total_beats_val :: "real \<Rightarrow> num_val" where
  "total_beats_val total_beats = int_if_whole (round_ndigits total_beats 6)"

text \<open>
  \<^verbatim>\<open>build_orbital_json\<close>. \<^verbatim>\<open>deduped[0]\<close> is read from a list that is never empty
  there; the model keeps the IndexError branch all the same. The warnings written to
  the error stream for skipped events are given by \<open>build_warnings\<close> below; the
  returned document does not depend on them.
\<close>

definition build_orbital_json ::
  "string \<Rightarrow> KeyState \<Rightarrow> RawEvent list \<Rightarrow> real \<Rightarrow> real \<Rightarrow> bool \<Rightarrow> string \<Rightarrow> string option
     \<Rightarrow> int \<Rightarrow> int \<Rightarrow> real \<Rightarrow> real \<Rightarrow> py_error + document" where
  "build_orbital_json title initial_key events total_beats bpm_v loop_v preset bass_preset
       octave_v voices sustain min_duration =
     (if events = []
      then Inr (empty_json title initial_key bpm_v loop_v preset bass_preset octave_v voices
                  sustain total_beats)
      else
        case dedup_events events of
          [] \<Rightarrow> Inl IndexError
        | first # others \<Rightarrow>
            let (shifted, total1) = shift_events (beat first) (first # others) total_beats;
                total2 = max total1 1;
                supported = filter (\<lambda>e. is_supported_roman (roman e)) shifted
            in
              if supported = []
              then Inr (empty_json title initial_key bpm_v loop_v preset bass_preset octave_v
                          voices sustain total2)
              else
                let deduped = filter_short min_duration total2 supported in
                case emit_chord_events initial_key deduped of
                  Inl err \<Rightarrow> Inl err
                | Inr chord_events_json \<Rightarrow>
                    Inr \<lparr>name = title,
                         scoreTracks =
                           \<lparr>bpm = bpm_v,
                            totalBeats = total_beats_val total2,
                            loop = loop_v,
                            score_key = initial_key,
                            chordEvents = chord_events_json,
                            tracks = build_tracks preset bass_preset octave_v voices sustain
                                       (note_durations deduped total2)\<rparr>\<rparr>)"

text \<open>
  The warnings of the run, one per skipped event, as the measure, the symbol and the
  reason that the message is formatted from.
\<close>

definition build_warnings :: "(string \<Rightarrow> string) \<Rightarrow> RawEvent list \<Rightarrow> (int \<times> string \<times> string) list"
  where
  "build_warnings repr events =
     (case dedup_events events of
        [] \<Rightarrow> []
      | first # others \<Rightarrow>
          map (\<lambda>e. (measure_no e, roman e, skip_reason repr (roman e)))
            (filter (\<lambda>e. \<not> is_supported_roman (roman e)) (first # others)))"

section \<open>Filter helpers\<close>

definition filter_by_measures ::
  "RawEvent list \<Rightarrow> int \<Rightarrow> int \<Rightarrow> real \<Rightarrow> 'sections \<Rightarrow> RawEvent list \<times> real" where
  "filter_by_measures events start_m end_m total_beats form_sections =
     (let filtered = filter (\<lambda>e. start_m \<le> measure_no e \<and> measure_no e \<le> end_m) events in
      if filtered = [] then (events, total_beats)
      else
        let clip_start = beat (filtered ! 0);
            clip_end = beat (filtered ! (length filtered - 1));
            last_dur = (if 2 \<le> length filtered
                        then beat (filtered ! (length filtered - 1))
                             - beat (filtered ! (length filtered - 2))
                        else 4);
            new_total = clip_end + last_dur - clip_start
        in (filtered, new_total))"

text \<open>An event in C major, for stating examples.\<close>

definition chord_at :: "real \<Rightarrow> int \<Rightarrow> string \<Rightarrow> RawEvent" where
  "chord_at b m r = \<lparr>beat = b, measure_no = m, roman = r, key = C_major\<rparr>"

section \<open>The ribbon image: mesh pass and painter's sort\<close>

text \<open>
  The script \<^verbatim>\<open>ribbon_plot.py\<close> computes with numpy floats; the model uses reals with
  the functions \<open>cos\<close>, \<open>sin\<close>, \<open>sqrt\<close> and \<open>arctan\<close> of analysis, so what it says
  about the values is exact arithmetic, while the comparisons and the control flow are
  the script's. A point is the triple of its axial, lateral and vertical coordinates.
\<close>

type_synonym vec3 = "real \<times> real \<times> real"

definition lateral :: "vec3 \<Rightarrow> real" where
  "lateral p = fst (snd p)"

definition radius :: real where
  "radius = 4"

definition width :: real where
  "width = 4 / 10"

definition n_theta :: nat where
  "n_theta = 300"

definition n_x :: nat where
  "n_x = 20"

text \<open>\<^verbatim>\<open>np.linspace(a, b, n)\<close>: \<open>n\<close> evenly spaced samples from \<open>a\<close> to \<open>b\<close>.\<close>

definition linspace :: "real \<Rightarrow> real \<Rightarrow> nat \<Rightarrow> real list" where
  "linspace a b n = map (\<lambda>i. a + real i * ((b - a) / real (n - 1))) [0 ..< n]"

definition theta :: "real list" where
  "theta = linspace 0 (2 * pi) n_theta"

definition xs_samples :: "real list" where
  "xs_samples = linspace (- width / 2) (width / 2) n_x"

definition cam :: vec3 where
  "cam = (0, 0, 9375 / 10000 * radius)"

definition fov_h :: real where
  "fov_h = 160"

definition fov_v :: real where
  "fov_v = 120"

definition img_w :: real where
  "img_w = 1600"

definition img_h :: real where
  "img_h = 1000"

definition radians :: "real \<Rightarrow> real" where
  "radians d = d * pi / 180"

text \<open>\<^verbatim>\<open>np.arctan2(y, x)\<close>, the angle of the point \<open>(x, y)\<close>.\<close>

definition arctan2 :: "real \<Rightarrow> real \<Rightarrow> real" where
  "arctan2 y x =
     (if 0 < x then arctan (y / x)
      else if x < 0 \<and> 0 \<le> y then arctan (y / x) + pi
      else if x < 0 \<and> y < 0 then arctan (y / x) - pi
      else if 0 < y then pi / 2
      else if y < 0 then - pi / 2
      else 0)"

definition vec_sub :: "vec3 \<Rightarrow> vec3 \<Rightarrow> vec3" where
  "vec_sub p q = (fst p - fst q, fst (snd p) - fst (snd q), snd (snd p) - snd (snd q))"

text \<open>\<^verbatim>\<open>np.linalg.norm\<close> of a point.\<close>

definition norm3 :: "vec3 \<Rightarrow> real" where
  "norm3 p = sqrt ((fst p)\<^sup>2 + (fst (snd p))\<^sup>2 + (snd (snd p))\<^sup>2)"

definition project :: "vec3 \<Rightarrow> real \<times> real" where
  "project p =
     (let d = vec_sub p cam;
          az = arctan2 (fst d) (fst (snd d));
          el = arctan2 (snd (snd d)) (sqrt ((fst d)\<^sup>2 + (fst (snd d))\<^sup>2));
          px = (az / radians (fov_h / 2) * (1 / 2) + 1 / 2) * img_w;
          py = (1 / 2 - el / radians (fov_v / 2) * (1 / 2)) * img_h
      in (px, py))"

text \<open>
  The mesh pass is written over the two sample arrays; the script runs it on
  \<open>theta\<close> and \<open>xs_samples\<close>. A cell is the pair \<open>(i, j)\<close> of the loop indices.
\<close>

definition corners_3d :: "real list \<Rightarrow> real list \<Rightarrow> nat \<times> nat \<Rightarrow> vec3 list" where
  "corners_3d th xs cell =
     map (\<lambda>(di, dj).
            let t = th ! (snd cell + dj);
                x = xs ! (fst cell + di);
                y = radius * cos t;
                z = radius * sin t
            in (x, y, z))
         [(0, 0), (1, 0), (1, 1), (0, 1)]"

text \<open>The projection loop with its \<^verbatim>\<open>break\<close>: no result when a corner is too close.\<close>

fun project_corners :: "vec3 list \<Rightarrow> (real \<times> real) list option" where
  "project_corners [] = Some []"
| "project_corners (c # cs) =
     (if lateral c < 1 / 100 then None
      else (case project_corners cs of
              None \<Rightarrow> None
            | Some ps \<Rightarrow> Some (project c # ps)))"

definition avg_theta :: "real list \<Rightarrow> nat \<times> nat \<Rightarrow> real" where
  "avg_theta th cell = (th ! snd cell + th ! (snd cell + 1)) / 2"

text \<open>\<^verbatim>\<open>np.mean\<close> of the distances of the corners from the camera.\<close>

definition avg_depth :: "real list \<Rightarrow> real list \<Rightarrow> nat \<times> nat \<Rightarrow> real" where
  "avg_depth th xs cell =
     (let ds = map (\<lambda>c. norm3 (vec_sub c cam)) (corners_3d th xs cell)
      in sum_list ds / real (length ds))"

text \<open>
  The state of the pass is the three lists \<^verbatim>\<open>quads\<close>, \<^verbatim>\<open>colors\<close> and
  \<^verbatim>\<open>depths\<close>; one step is the body of the inner loop.
\<close>

type_synonym mesh_state = "(real \<times> real) list list \<times> real list \<times> real list"

definition mesh_step :: "real list \<Rightarrow> real list \<Rightarrow> nat \<times> nat \<Rightarrow> mesh_state \<Rightarrow> mesh_state" where
  "mesh_step th xs cell st =
     (let c3 = corners_3d th xs cell;
          ys = map lateral c3
      in if fold max (tl ys) (hd ys) < 5 / 100 then st
         else (case project_corners c3 of
                 None \<Rightarrow> st
               | Some corners_2d \<Rightarrow>
                   (case st of
                      (quads, colors, depths) \<Rightarrow>
                        (quads @ [corners_2d],
                         colors @ [avg_theta th cell],
                         depths @ [avg_depth th xs cell]))))"

definition cells :: "real list \<Rightarrow> real list \<Rightarrow> (nat \<times> nat) list" where
  "cells th xs =
     concat (map (\<lambda>i. map (\<lambda>j. (i, j)) [0 ..< length th - 1]) [0 ..< length xs - 1])"

definition mesh_pass :: "real list \<Rightarrow> real list \<Rightarrow> mesh_state" where
  "mesh_pass th xs = fold (mesh_step th xs) (cells th xs) ([], [], [])"

text \<open>
  The painter's sort. \<^verbatim>\<open>np.argsort\<close> is a parameter: numpy fixes it only up to the
  order of equal keys. \<open>argsort_ok\<close> says what it guarantees, and \<open>stable_argsort\<close> is
  one instance.
\<close>

definition argsort_ok :: "(real list \<Rightarrow> nat list) \<Rightarrow> bool" where
  "argsort_ok argsort =
     (\<forall>ds. set (argsort ds) = {0 ..< length ds} \<and> length (argsort ds) = length ds
           \<and> sorted (map (\<lambda>i. ds ! i) (argsort ds)))"

definition stable_argsort :: "real list \<Rightarrow> nat list" where
  "stable_argsort ds = sort_key (\<lambda>i. ds ! i) [0 ..< length ds]"

definition draw_order :: "(real list \<Rightarrow> nat list) \<Rightarrow> real list \<Rightarrow> real list \<Rightarrow> nat list" where
  "draw_order argsort th xs = (case mesh_pass th xs of (quads, colors, depths) \<Rightarrow> rev (argsort depths))"

definition draw_quads ::
  "(real list \<Rightarrow> nat list) \<Rightarrow> real list \<Rightarrow> real list \<Rightarrow> (real \<times> real) list list" where
  "draw_quads argsort th xs =
     (case mesh_pass th xs of
        (quads, colors, depths) \<Rightarrow> map (\<lambda>i. quads ! i) (draw_order argsort th xs))"

definition draw_colors :: "(real list \<Rightarrow> nat list) \<Rightarrow> real list \<Rightarrow> real list \<Rightarrow> real list" where
  "draw_colors argsort th xs =
     (case mesh_pass th xs of
        (quads, colors, depths) \<Rightarrow> map (\<lambda>i. colors ! i) (draw_order argsort th xs))"

text \<open>
  For stating the properties of the pass: the cells that pass both tests, and the
  cells in the order in which their quads are drawn.
\<close>

definition cell_kept :: "real list \<Rightarrow> real list \<Rightarrow> nat \<times> nat \<Rightarrow> bool" where
  "cell_kept th xs cell =
     (\<not> Max (set (map lateral (corners_3d th xs cell))) < 5 / 100
      \<and> list_all (\<lambda>c. \<not> lateral c < 1 / 100) (corners_3d th xs cell))"

definition drawn_cells ::
  "(real list \<Rightarrow> nat list) \<Rightarrow> real list \<Rightarrow> real list \<Rightarrow> (nat \<times> nat) list" where
  "drawn_cells argsort th xs =
     map (\<lambda>i. filter (cell_kept th xs) (cells th xs) ! i) (draw_order argsort th xs)"

section \<open>Properties of the key parser\<close>

lemma upper_char_note_letter:
  "upper_char c \<in> set ''CDEFGAB'' \<longleftrightarrow> c \<in> set ''CDEFGABcdefgab''"
  by (auto simp: upper_char_def lower_letters_def upper_letters_def)

lemma PC_TO_SEMI_None: "map_of PC_TO_SEMI d = None \<longleftrightarrow> d \<notin> set ''CDEFGAB''"
  by (auto simp: PC_TO_SEMI_def)

lemma note_letter_case:
  "c \<in> set ''CDEFGABcdefgab'' \<Longrightarrow> isupper c \<longleftrightarrow> c \<notin> set lower_letters"
  by (auto simp: isupper_def lower_letters_def upper_letters_def)

lemma parse_key_str_strip:
  "parse_key_str s =
     (if strip s = [] \<or> upper_char (hd (strip s)) \<notin> set ''CDEFGAB'' then None
      else Some \<lparr>root_name = upper_char (hd (strip s)) # tl (strip s),
                 scale_name = (if hd (strip s) \<in> set lower_letters then ''minor''
                               else ''major'')\<rparr>)"
proof (cases "strip s")
  case Nil
  then show ?thesis by (simp add: parse_key_str_def)
next
  case (Cons c rest)
  show ?thesis
  proof (cases "upper_char c \<in> set ''CDEFGAB''")
    case False
    with Cons show ?thesis
      by (simp add: parse_key_str_def PC_TO_SEMI_None del: set_simps)
  next
    case True
    then have "c \<in> set ''CDEFGABcdefgab''"
      by (simp only: upper_char_note_letter)
    then have "isupper c \<longleftrightarrow> c \<notin> set lower_letters"
      by (rule note_letter_case)
    with Cons True show ?thesis
      by (simp add: parse_key_str_def PC_TO_SEMI_None Let_def del: set_simps)
  qed
qed

section \<open>Properties of the applied-chord resolver\<close>

lemma numeral_run_takeWhile:
  "numeral_run acc xs = acc @ takeWhile (\<lambda>c. c = CHR ''I'' \<or> c = CHR ''V'') xs"
  by (induction xs arbitrary: acc) auto

lemma startswith_single: "startswith s [c] \<longleftrightarrow> take 1 s = [c]"
  by (cases s) auto

lemma degree_bound: "map_of NUMERAL_TO_DEGREE n = Some d \<Longrightarrow> d < 7"
  by (auto simp: NUMERAL_TO_DEGREE_def split: if_splits)

lemma length_scale_semitones: "length (scale_semitones r sc) = 7"
  by (simp add: scale_semitones_def MAJOR_INTERVALS_def MINOR_INTERVALS_def)

lemma scale_semitones_nth:
  "d < 7 \<Longrightarrow> scale_semitones r sc ! d =
     (r + (if sc = ''major'' then [0, 2, 4, 5, 7, 9, 11] else [0, 2, 3, 5, 7, 8, 10]) ! d) mod 12"
  by (simp add: scale_semitones_def MAJOR_INTERVALS_def MINOR_INTERVALS_def)

lemma tonicize_general:
  "tonicize k t =
     (let off = (if take 1 t = ''b'' then - 1 else if take 1 t = ''#'' then 1 else 0);
          num = (if take 1 t = ''b'' \<or> take 1 t = ''#'' then drop 1 t else t);
          run = takeWhile (\<lambda>c. c = CHR ''I'' \<or> c = CHR ''V'') (map upper_char num)
      in case map_of [(''I'', 0::nat), (''II'', 1), (''III'', 2), (''IV'', 3), (''V'', 4),
                      (''VI'', 5), (''VII'', 6)] run of
           None \<Rightarrow> Inr k
         | Some d \<Rightarrow>
             (case semitone k of
                None \<Rightarrow> Inl TypeError
              | Some r \<Rightarrow>
                  Inr \<lparr>root_name =
                         [''C'', ''Db'', ''D'', ''Eb'', ''E'', ''F'', ''F#'', ''G'', ''Ab'',
                          ''A'', ''Bb'', ''B'']
                         ! nat (((r + (if scale_name k = ''major''
                                       then [0, 2, 4, 5, 7, 9, 11]
                                       else [0, 2, 3, 5, 7, 8, 10]) ! d) mod 12 + off) mod 12),
                       scale_name = (if isupper (hd num) then ''major'' else ''minor'')\<rparr>))"
proof -
  define off :: int
    where "off = (if take 1 t = ''b'' then - 1 else if take 1 t = ''#'' then 1 else 0)"
  define num where "num = (if take 1 t = ''b'' \<or> take 1 t = ''#'' then drop 1 t else t)"
  define run
    where "run = takeWhile (\<lambda>c. c = CHR ''I'' \<or> c = CHR ''V'') (map upper_char num)"
  have split_eq: "(if startswith t ''b'' then (- 1, drop 1 t)
             else if startswith t ''#'' then (1, drop 1 t) else (0 :: int, t)) = (off, num)"
    by (auto simp: off_def num_def startswith_single)
  have run_eq: "numeral_run [] (upper num) = run"
    by (simp add: numeral_run_takeWhile run_def upper_def)
  have tab: "map_of NUMERAL_TO_DEGREE run =
      map_of [(''I'', 0::nat), (''II'', 1), (''III'', 2), (''IV'', 3), (''V'', 4),
              (''VI'', 5), (''VII'', 6)] run"
    by (simp only: NUMERAL_TO_DEGREE_def)
  have empty: "num = [] \<Longrightarrow> map_of NUMERAL_TO_DEGREE run = None"
    by (simp add: run_def NUMERAL_TO_DEGREE_def)
  have lhs: "tonicize k t =
      (case map_of NUMERAL_TO_DEGREE run of
           None \<Rightarrow> Inr k
         | Some d \<Rightarrow>
             (case semitone k of
                None \<Rightarrow> Inl TypeError
              | Some r \<Rightarrow>
                  Inr \<lparr>root_name =
                         SEMI_TO_PC ! nat ((scale_semitones r (scale_name k) ! d + off) mod 12),
                       scale_name = (if isupper (hd num) then ''major'' else ''minor'')\<rparr>))"
  proof (cases num)
    case Nil
    then show ?thesis using empty split_eq by (simp add: tonicize_def)
  next
    case (Cons c cs)
    have run': "numeral_run [] (upper (c # cs)) = run"
      using run_eq Cons by simp
    show ?thesis
      unfolding tonicize_def split_eq
      by (auto simp: Cons run' Let_def length_scale_semitones dest: degree_bound
               split: option.splits)
  qed
  show ?thesis
    unfolding lhs Let_def off_def [symmetric] num_def [symmetric] run_def [symmetric]
      tab [symmetric]
    by (auto simp: scale_semitones_nth SEMI_TO_PC_def dest: degree_bound split: option.splits)
qed

lemmas char_eval = strip_def isspace_def whitespace_def upper_char_def upper_def
  lower_letters_def upper_letters_def isupper_def

lemmas pitch_eval = semitone_def parse_pitch_class_def PC_TO_SEMI_def C_major_def
  G_major_def Eb_major_def

text \<open>
  C2. \<^verbatim>\<open>tonicize\<close> strips one leading \<open>b\<close> (offset -1) or \<open>#\<close> (offset +1), reads the
  leading run of I and V characters of the uppercased remainder, and maps that run
  through the table I..VII to 0..6. When the run is not in the table (this covers an
  empty remainder) the key is returned unchanged. Otherwise, for a key whose root has
  a pitch class \<open>r\<close>, the new root is the spelling, in the table
  C, Db, D, Eb, E, F, F#, G, Ab, A, Bb, B, of the scale degree of the key (major intervals
  0,2,4,5,7,9,11, minor 0,2,3,5,7,8,10, mod 12) plus the offset, mod 12, and the new scale
  is major iff the first character of the remainder is an uppercase letter. In C major,
  the target V gives G major and the target bIII gives Eb major.
\<close>

theorem tonicize_diatonic:
  "tonicize k t =
     (let off = (if take 1 t = ''b'' then - 1 else if take 1 t = ''#'' then 1 else 0);
          num = (if take 1 t = ''b'' \<or> take 1 t = ''#'' then drop 1 t else t);
          run = takeWhile (\<lambda>c. c = CHR ''I'' \<or> c = CHR ''V'') (map upper_char num)
      in case map_of [(''I'', 0::nat), (''II'', 1), (''III'', 2), (''IV'', 3), (''V'', 4),
                      (''VI'', 5), (''VII'', 6)] run of
           None \<Rightarrow> Inr k
         | Some d \<Rightarrow>
             (case semitone k of
                None \<Rightarrow> Inl TypeError
              | Some r \<Rightarrow>
                  Inr \<lparr>root_name =
                         [''C'', ''Db'', ''D'', ''Eb'', ''E'', ''F'', ''F#'', ''G'', ''Ab'',
                          ''A'', ''Bb'', ''B'']
                         ! nat (((r + (if scale_name k = ''major''
                                       then [0, 2, 4, 5, 7, 9, 11]
                                       else [0, 2, 3, 5, 7, 8, 10]) ! d) mod 12 + off) mod 12),
                       scale_name = (if isupper (hd num) then ''major'' else ''minor'')\<rparr>))
   \<and> tonicize C_major ''V'' = Inr G_major
   \<and> tonicize C_major ''bIII'' = Inr Eb_major"
proof (intro conjI)
  show "tonicize C_major ''V'' = Inr G_major"
    unfolding tonicize_general [of C_major "''V''"] by (simp add: char_eval pitch_eval)
  show "tonicize C_major ''bIII'' = Inr Eb_major"
    unfolding tonicize_general [of C_major "''bIII''"] by (simp add: char_eval pitch_eval)
qed (rule tonicize_general)

theorem tonicize_diatonic_witness:
  "semitone \<lparr>root_name = ''Bb'', scale_name = ''minor''\<rparr> = Some 10
   \<and> tonicize \<lparr>root_name = ''Bb'', scale_name = ''minor''\<rparr> ''#vio7''
       = Inr \<lparr>root_name = ''G'', scale_name = ''minor''\<rparr>
   \<and> tonicize \<lparr>root_name = ''Bb'', scale_name = ''minor''\<rparr> ''b9'' 
       = Inr \<lparr>root_name = ''Bb'', scale_name = ''minor''\<rparr>"
  using tonicize_diatonic [of "\<lparr>root_name = ''Bb'', scale_name = ''minor''\<rparr>" "''#vio7''"]
    tonicize_diatonic [of "\<lparr>root_name = ''Bb'', scale_name = ''minor''\<rparr>" "''b9''"]
  by (simp add: char_eval pitch_eval)

lemma find_target_None:
  "find_target s n = None \<longleftrightarrow> (\<forall>p. 0 < p \<and> p \<le> n \<longrightarrow> \<not> target_delimiter s p)"
proof (induction n)
  case 0
  then show ?case by simp
next
  case (Suc n)
  have "(\<forall>p. 0 < p \<and> p \<le> Suc n \<longrightarrow> \<not> target_delimiter s p) \<longleftrightarrow>
        (\<not> target_delimiter s (Suc n) \<and> (\<forall>p. 0 < p \<and> p \<le> n \<longrightarrow> \<not> target_delimiter s p))"
    by (auto simp: le_Suc_eq)
  with Suc show ?case
    by (auto simp: target_delimiter_def Let_def)
qed

lemma find_target_Some:
  "find_target s n = Some p \<Longrightarrow>
     0 < p \<and> p \<le> n \<and> target_delimiter s p \<and> (\<forall>q. p < q \<and> q \<le> n \<longrightarrow> \<not> target_delimiter s q)"
proof (induction n)
  case 0
  then show ?case by simp
next
  case (Suc n)
  show ?case
  proof (cases "target_delimiter s (Suc n)")
    case True
    then have "find_target s (Suc n) = Some (Suc n)"
      by (auto simp: target_delimiter_def Let_def)
    with Suc.prems True show ?thesis by auto
  next
    case False
    then have "find_target s (Suc n) = find_target s n"
      by (auto simp: target_delimiter_def Let_def)
    with Suc False show ?thesis by (auto simp: le_Suc_eq)
  qed
qed

lemma find_target_rightmost:
  assumes "0 < p" "target_delimiter s p" "\<forall>q>p. \<not> target_delimiter s q"
  shows "find_target s (length s - 1) = Some p"
proof -
  from assms(2) have "p + 1 < length s"
    by (simp add: target_delimiter_def)
  then have le: "p \<le> length s - 1"
    by arith
  with assms(1,2) have "find_target s (length s - 1) \<noteq> None"
    by (auto simp: find_target_None)
  then obtain p' where p': "find_target s (length s - 1) = Some p'" by auto
  from find_target_Some [OF p'] have
    td: "target_delimiter s p'" and mx: "\<forall>q. p' < q \<and> q \<le> length s - 1 \<longrightarrow> \<not> target_delimiter s q"
    by auto
  from td assms(3) have "p' \<le> p" by (meson not_le)
  moreover from mx le assms(2) have "p \<le> p'" by (meson not_le)
  ultimately show ?thesis using p' by simp
qed

lemma find_target_absent:
  assumes "\<forall>p>0. \<not> target_delimiter s p"
  shows "find_target s (length s - 1) = None"
  using assms by (simp add: find_target_None)


lemmas tonicize_eval = tonicize_def NUMERAL_TO_DEGREE_def scale_semitones_def
  MAJOR_INTERVALS_def MINOR_INTERVALS_def SEMI_TO_PC_def

lemma resolve_applied_after_first:
  "(0 < p \<and> target_delimiter s p \<and> (\<forall>q>p. \<not> target_delimiter s q) \<longrightarrow>
      resolve_applied s k =
        (case tonicize k (drop (p + 1) s) of
           Inl e \<Rightarrow> Inl e
         | Inr k' \<Rightarrow> Inr (take p s, k')))
   \<and> ((\<forall>p>0. \<not> target_delimiter s p) \<longrightarrow> resolve_applied s k = Inr (s, k))
   \<and> resolve_applied ''V7/V'' C_major = Inr (''V7'', G_major)
   \<and> resolve_applied ''ii6/5'' C_major = Inr (''ii6/5'', C_major)"
proof (intro conjI impI)
  assume "0 < p \<and> target_delimiter s p \<and> (\<forall>q>p. \<not> target_delimiter s q)"
  then have "find_target s (length s - 1) = Some p"
    using find_target_rightmost by blast
  then show "resolve_applied s k =
        (case tonicize k (drop (p + 1) s) of
           Inl e \<Rightarrow> Inl e
         | Inr k' \<Rightarrow> Inr (take p s, k'))"
    by (simp add: resolve_applied_def)
next
  assume "\<forall>p>0. \<not> target_delimiter s p"
  then have "find_target s (length s - 1) = None"
    by (rule find_target_absent)
  then show "resolve_applied s k = Inr (s, k)"
    by (simp add: resolve_applied_def)
next
  show "resolve_applied ''V7/V'' C_major = Inr (''V7'', G_major)"
    by (simp add: resolve_applied_def tonicize_eval char_eval pitch_eval)
  show "resolve_applied ''ii6/5'' C_major = Inr (''ii6/5'', C_major)"
    by (simp add: resolve_applied_def)
qed

lemma startswith_prefix: "startswith s p \<longleftrightarrow> prefix p s"
  by (induction s p rule: startswith.induct) auto

lemma take_index_of: "take (index_of s ch) s = takeWhile (\<lambda>c. c \<noteq> ch) s"
  by (induction s) auto

lemma upper_char_IV:
  "upper_char d \<in> set [CHR ''I'', CHR ''V''] \<longleftrightarrow> d \<in> set ''IiVv''"
  by (auto simp: upper_char_def lower_letters_def upper_letters_def)


lemma is_supported_roman_general:
  "is_supported_roman s =
     (let t = (if CHR ''['' \<in> set s then strip (takeWhile (\<lambda>c. c \<noteq> CHR ''['') s) else s)
      in if t = [] then False
         else if prefix ''N'' t then t = ''N'' \<or> t = ''N6''
         else if prefix ''It'' t \<or> prefix ''Ger'' t \<or> prefix ''Fr'' t
           then t = ''It6'' \<or> t = ''Ger6/5'' \<or> t = ''Ger7'' \<or> t = ''Fr4/3'' \<or> t = ''Fr6''
         else if hd t = CHR ''b'' \<or> hd t = CHR ''#''
           then 2 \<le> length t \<and> t ! 1 \<in> set ''IiVv''
         else hd t \<in> set ''IiVv'')"
proof -
  define t where "t = (if CHR ''['' \<in> set s then strip (takeWhile (\<lambda>c. c \<noteq> CHR ''['') s) else s)"
  have t_code: "(if CHR ''['' \<in> set s then strip (take (index_of s (CHR ''['')) s) else s) = t"
    by (simp add: t_def take_index_of)
  have hd0: "t \<noteq> [] \<Longrightarrow> t ! 0 = hd t"
    by (simp add: hd_conv_nth)
  have len: "1 < length t \<longleftrightarrow> 2 \<le> length t" by arith
  have empty: "s = [] \<Longrightarrow> t = []" by (simp add: t_def)
  have code: "is_supported_roman s =
      (if t = [] then False
       else if startswith t ''N'' then t \<in> set [''N'', ''N6'']
       else if startswith t ''It'' \<or> startswith t ''Ger'' \<or> startswith t ''Fr''
         then t \<in> set [''It6'', ''Ger6/5'', ''Ger7'', ''Fr4/3'', ''Fr6'']
       else if t ! 0 \<in> set [CHR ''b'', CHR ''#'']
         then 1 < length t \<and> upper_char (t ! 1) \<in> set [CHR ''I'', CHR ''V'']
       else t ! 0 \<in> set [CHR ''I'', CHR ''i'', CHR ''V'', CHR ''v''])"
    unfolding is_supported_roman_def t_code Let_def using empty by simp
  show ?thesis
  proof (cases "t = []")
    case True
    then show ?thesis unfolding code Let_def t_def [symmetric] by simp
  next
    case False
    with hd0 have h: "t ! 0 = hd t" by simp
    have l1: "t \<in> set [''N'', ''N6''] \<longleftrightarrow> t = ''N'' \<or> t = ''N6''" by simp
    have l2: "t \<in> set [''It6'', ''Ger6/5'', ''Ger7'', ''Fr4/3'', ''Fr6''] \<longleftrightarrow>
        t = ''It6'' \<or> t = ''Ger6/5'' \<or> t = ''Ger7'' \<or> t = ''Fr4/3'' \<or> t = ''Fr6''" by simp
    have l3: "hd t \<in> set [CHR ''b'', CHR ''#''] \<longleftrightarrow> hd t = CHR ''b'' \<or> hd t = CHR ''#''" by simp
    show ?thesis
      unfolding code Let_def t_def [symmetric] startswith_prefix h l1 l2 l3 upper_char_IV len
      by (rule refl)
  qed
qed

lemma strip_explicit:
  "strip s =
     rev (dropWhile (\<lambda>c. c \<in> set [CHR 0x09, CHR 0x0A, CHR 0x0B, CHR 0x0C, CHR 0x0D, CHR 0x1C,
                                     CHR 0x1D, CHR 0x1E, CHR 0x1F, CHR 0x20, CHR 0x85, CHR 0xA0])
       (rev (dropWhile (\<lambda>c. c \<in> set [CHR 0x09, CHR 0x0A, CHR 0x0B, CHR 0x0C, CHR 0x0D,
                                         CHR 0x1C, CHR 0x1D, CHR 0x1E, CHR 0x1F, CHR 0x20,
                                         CHR 0x85, CHR 0xA0]) s)))"
  unfolding strip_def isspace_def whitespace_def ..

lemma trim_no_space:
  assumes "\<forall>c\<in>set u. \<not> P c"
  shows "rev (dropWhile P (rev (dropWhile P u))) = u"
proof -
  have a: "dropWhile P u = u" using assms by (cases u) auto
  have b: "dropWhile P (rev u) = rev u" using assms by (cases "rev u") (auto simp: rev_swap)
  show ?thesis by (simp add: a b)
qed

lemma trim_keeps_head:
  assumes "\<not> P c"
  shows "\<exists>w'. rev (dropWhile P (rev (dropWhile P (c # w)))) = c # w'"
proof -
  have "\<exists>ys. dropWhile P (rev w @ [c]) = ys @ [c]"
    using assms by (auto simp: dropWhile_append)
  then obtain ys where "dropWhile P (rev w @ [c]) = ys @ [c]" ..
  then have "rev (dropWhile P (rev (dropWhile P (c # w)))) = c # rev ys"
    using assms by simp
  then show ?thesis ..
qed

lemma note_letter_upper:
  assumes "c \<in> set ''CDEFGABcdefgab''"
  shows "upper_char c = (case map_of (zip ''cdefgab'' ''CDEFGAB'') c of Some u \<Rightarrow> u | None \<Rightarrow> c)"
proof -
  from assms have "c = CHR ''C'' \<or> c = CHR ''D'' \<or> c = CHR ''E'' \<or> c = CHR ''F'' \<or> c = CHR ''G''
      \<or> c = CHR ''A'' \<or> c = CHR ''B'' \<or> c = CHR ''c'' \<or> c = CHR ''d'' \<or> c = CHR ''e''
      \<or> c = CHR ''f'' \<or> c = CHR ''g'' \<or> c = CHR ''a'' \<or> c = CHR ''b''"
    by simp
  then show ?thesis
    by (elim disjE) (simp_all add: upper_char_def lower_letters_def upper_letters_def)
qed

lemma note_letter_lower:
  assumes "c \<in> set ''CDEFGABcdefgab''"
  shows "c \<in> set lower_letters \<longleftrightarrow> c \<in> set ''cdefgab''"
proof -
  from assms have "c = CHR ''C'' \<or> c = CHR ''D'' \<or> c = CHR ''E'' \<or> c = CHR ''F'' \<or> c = CHR ''G''
      \<or> c = CHR ''A'' \<or> c = CHR ''B'' \<or> c = CHR ''c'' \<or> c = CHR ''d'' \<or> c = CHR ''e''
      \<or> c = CHR ''f'' \<or> c = CHR ''g'' \<or> c = CHR ''a'' \<or> c = CHR ''b''"
    by simp
  then show ?thesis
    by (elim disjE) (simp_all add: lower_letters_def)
qed

section \<open>The key parser on every string\<close>

text \<open>
  C10. \<^verbatim>\<open>parse_key_str\<close> removes the leading and the trailing whitespace (the twelve
  whitespace code points below 256) and returns \<^verbatim>\<open>None\<close> exactly when nothing is
  left or the first character left is not one of the letters C, D, E, F, G, A, B in
  either case. On every other input it returns the key whose root is that first
  character in upper case followed by the rest of the stripped string unchanged, and
  whose scale is minor iff the first character is one of the lowercase letters, major
  otherwise.
\<close>

theorem parse_key_str_cases:
  "parse_key_str s =
     (let sp = (\<lambda>c. c \<in> set [CHR 0x09, CHR 0x0A, CHR 0x0B, CHR 0x0C, CHR 0x0D, CHR 0x1C,
                                 CHR 0x1D, CHR 0x1E, CHR 0x1F, CHR 0x20, CHR 0x85, CHR 0xA0]);
          t = rev (dropWhile sp (rev (dropWhile sp s)))
      in if t = [] \<or> hd t \<notin> set ''CDEFGABcdefgab'' then None
         else Some \<lparr>root_name =
                      (case map_of (zip ''cdefgab'' ''CDEFGAB'') (hd t) of
                         Some u \<Rightarrow> u
                       | None \<Rightarrow> hd t) # tl t,
                    scale_name = (if hd t \<in> set ''cdefgab'' then ''minor'' else ''major'')\<rparr>)"
proof -
  define t where "t = strip s"
  have main: "parse_key_str s =
     (if t = [] \<or> hd t \<notin> set ''CDEFGABcdefgab'' then None
      else Some \<lparr>root_name =
                   (case map_of (zip ''cdefgab'' ''CDEFGAB'') (hd t) of
                      Some u \<Rightarrow> u
                    | None \<Rightarrow> hd t) # tl t,
                 scale_name = (if hd t \<in> set ''cdefgab'' then ''minor'' else ''major'')\<rparr>)"
  proof (cases "t = [] \<or> hd t \<notin> set ''CDEFGABcdefgab''")
    case True
    have "strip s = [] \<or> upper_char (hd (strip s)) \<notin> set ''CDEFGAB''"
      unfolding upper_char_note_letter t_def [symmetric] by (rule True)
    then have "parse_key_str s = None"
      using parse_key_str_strip [of s] by (simp del: set_simps)
    with True show ?thesis by (simp only: if_True)
  next
    case False
    then have letter: "hd t \<in> set ''CDEFGABcdefgab''" and ne: "t \<noteq> []"
      by simp_all
    have cond: "\<not> (strip s = [] \<or> upper_char (hd (strip s)) \<notin> set ''CDEFGAB'')"
      unfolding upper_char_note_letter t_def [symmetric] by (rule False)
    have "parse_key_str s =
        Some \<lparr>root_name = upper_char (hd t) # tl t,
              scale_name = (if hd t \<in> set lower_letters then ''minor'' else ''major'')\<rparr>"
      using cond parse_key_str_strip [of s] unfolding t_def by (simp del: set_simps)
    then show ?thesis
      using False
      unfolding note_letter_upper [OF letter] note_letter_lower [OF letter]
      by (simp del: set_simps)
  qed
  show ?thesis
    unfolding Let_def strip_explicit [symmetric] t_def [symmetric] by (rule main)
qed

theorem parse_key_str_cases_witness:
  "parse_key_str [CHR 0x20, CHR ''f'', CHR ''#'', CHR 0x09] =
     Some \<lparr>root_name = ''F#'', scale_name = ''minor''\<rparr>
   \<and> parse_key_str [CHR 0xA0, CHR ''B'', CHR ''b'', CHR 0x85] =
     Some \<lparr>root_name = ''Bb'', scale_name = ''major''\<rparr>
   \<and> parse_key_str ''H'' = None
   \<and> parse_key_str ''  '' = None"
  using parse_key_str_cases [of "[CHR 0x20, CHR ''f'', CHR ''#'', CHR 0x09]"]
    parse_key_str_cases [of "[CHR 0xA0, CHR ''B'', CHR ''b'', CHR 0x85]"]
    parse_key_str_cases [of "''H''"] parse_key_str_cases [of "''  ''"]
  by simp

section \<open>The resolver on chord symbols\<close>

lemma slash_not_space: "\<not> isspace (CHR ''/'')"
  by (simp add: isspace_def whitespace_def)

lemma strip_keeps_slash: "\<exists>w'. strip (CHR ''/'' # w) = CHR ''/'' # w'"
  unfolding strip_def
  using trim_keeps_head [of isspace "CHR ''/''" w] slash_not_space by blast

lemma leading_slash_unsupported:
  assumes "s \<noteq> []" and "hd s = CHR ''/''"
  shows "\<not> is_supported_roman s"
proof -
  from assms obtain w where s: "s = CHR ''/'' # w" by (cases s) auto
  define t where "t = (if CHR ''['' \<in> set s then strip (takeWhile (\<lambda>c. c \<noteq> CHR ''['') s) else s)"
  have "\<exists>w'. t = CHR ''/'' # w'"
  proof (cases "CHR ''['' \<in> set s")
    case True
    have "takeWhile (\<lambda>c. c \<noteq> CHR ''['') s = CHR ''/'' # takeWhile (\<lambda>c. c \<noteq> CHR ''['') w"
      by (simp add: s)
    then show ?thesis
      using True strip_keeps_slash by (simp add: t_def)
  next
    case False
    then show ?thesis by (simp add: t_def s)
  qed
  then obtain w' where t: "t = CHR ''/'' # w'" ..
  show ?thesis
    unfolding is_supported_roman_general Let_def t_def [symmetric]
    by (simp add: t)
qed

lemma chord_no_leading_delimiter:
  assumes "looks_like_chord s \<or> is_supported_roman s"
  shows "\<not> target_delimiter s 0"
proof
  assume td: "target_delimiter s 0"
  then have ne: "s \<noteq> []" and s0: "s ! 0 = CHR ''/''"
    by (auto simp: target_delimiter_def)
  then have sl: "hd s = CHR ''/''"
    by (simp add: hd_conv_nth)
  from leading_slash_unsupported [OF ne sl] assms have "looks_like_chord s" by simp
  then show False
    using ne s0 by (auto simp: looks_like_chord_def split: if_splits)
qed

text \<open>
  C1. For every chord symbol, that is, every string that the tokeniser takes for a chord
  or that the builder's supported-symbol filter lets through, \<^verbatim>\<open>resolve_applied\<close>
  splits the symbol at the rightmost \<open>/\<close> that is immediately followed by one of
  \<open>I i V v b #\<close>: the part before it is the chord part and the part after it is
  tonicized to give the resolved key (an error of \<^verbatim>\<open>tonicize\<close> is passed on). When
  the symbol has no such \<open>/\<close>, the symbol and the key are returned unchanged.
  \<open>V7/V\<close> in C major gives \<open>V7\<close> in G major, and \<open>ii6/5\<close> in C major is
  returned unchanged.
\<close>

theorem resolve_applied_rightmost:
  "(looks_like_chord s \<or> is_supported_roman s \<longrightarrow>
      (target_delimiter s p \<and> (\<forall>q>p. \<not> target_delimiter s q) \<longrightarrow>
         resolve_applied s k =
           (case tonicize k (drop (p + 1) s) of
              Inl e \<Rightarrow> Inl e
            | Inr k' \<Rightarrow> Inr (take p s, k')))
      \<and> ((\<forall>p. \<not> target_delimiter s p) \<longrightarrow> resolve_applied s k = Inr (s, k)))
   \<and> resolve_applied ''V7/V'' C_major = Inr (''V7'', G_major)
   \<and> resolve_applied ''ii6/5'' C_major = Inr (''ii6/5'', C_major)"
proof (intro conjI impI)
  assume chord: "looks_like_chord s \<or> is_supported_roman s"
    and "target_delimiter s p \<and> (\<forall>q>p. \<not> target_delimiter s q)"
  moreover from chord have "\<not> target_delimiter s 0"
    by (rule chord_no_leading_delimiter)
  ultimately have "0 < p \<and> target_delimiter s p \<and> (\<forall>q>p. \<not> target_delimiter s q)"
    by (cases p) auto
  then show "resolve_applied s k =
           (case tonicize k (drop (p + 1) s) of
              Inl e \<Rightarrow> Inl e
            | Inr k' \<Rightarrow> Inr (take p s, k'))"
    using resolve_applied_after_first [of p s k] by blast
next
  assume "\<forall>p. \<not> target_delimiter s p"
  then have "\<forall>p>0. \<not> target_delimiter s p" by simp
  then show "resolve_applied s k = Inr (s, k)"
    using resolve_applied_after_first [of 0 s k] by blast
next
  show "resolve_applied ''V7/V'' C_major = Inr (''V7'', G_major)"
    using resolve_applied_after_first [of 0 "''V7/V''" C_major] by blast
  show "resolve_applied ''ii6/5'' C_major = Inr (''ii6/5'', C_major)"
    using resolve_applied_after_first [of 0 "''ii6/5''" C_major] by blast
qed

theorem resolve_applied_rightmost_witness:
  "looks_like_chord ''V/V/ii''
   \<and> is_supported_roman ''V/V/ii''
   \<and> target_delimiter ''V/V/ii'' 3
   \<and> resolve_applied ''V/V/ii'' C_major
       = Inr (''V/V'', \<lparr>root_name = ''D'', scale_name = ''minor''\<rparr>)
   \<and> is_supported_roman ''Fr4/3''
   \<and> resolve_applied ''Fr4/3'' C_major = Inr (''Fr4/3'', C_major)"
proof -
  have c1: "looks_like_chord ''V/V/ii''"
    by (simp add: looks_like_chord_def)
  have c2: "is_supported_roman ''V/V/ii''"
    by (simp add: is_supported_roman_def)
  have c3: "is_supported_roman ''Fr4/3''"
    by (simp add: is_supported_roman_def)
  have td: "target_delimiter ''V/V/ii'' 3"
    by (simp add: target_delimiter_def)
  have last: "\<forall>q>3. \<not> target_delimiter ''V/V/ii'' q"
  proof (intro allI impI)
    fix q :: nat assume "3 < q"
    then have "q = 4 \<or> 5 \<le> q" by arith
    then show "\<not> target_delimiter ''V/V/ii'' q"
      by (auto simp: target_delimiter_def)
  qed
  have none: "\<forall>p. \<not> target_delimiter ''Fr4/3'' p"
  proof
    fix p :: nat
    have "p = 0 \<or> p = 1 \<or> p = 2 \<or> p = 3 \<or> 4 \<le> p" by arith
    then show "\<not> target_delimiter ''Fr4/3'' p"
      by (auto simp: target_delimiter_def)
  qed
  have ton: "tonicize C_major ''ii'' = Inr \<lparr>root_name = ''D'', scale_name = ''minor''\<rparr>"
    by (simp add: tonicize_eval char_eval pitch_eval)
  from resolve_applied_rightmost [of "''V/V/ii''" 3 C_major] c1 td last ton
  have r1: "resolve_applied ''V/V/ii'' C_major
      = Inr (''V/V'', \<lparr>root_name = ''D'', scale_name = ''minor''\<rparr>)"
    by simp
  from resolve_applied_rightmost [of "''Fr4/3''" 0 C_major] c3 none
  have r2: "resolve_applied ''Fr4/3'' C_major = Inr (''Fr4/3'', C_major)"
    by blast
  from c1 c2 c3 td r1 r2 show ?thesis by blast
qed

section \<open>The supported-symbol test\<close>

text \<open>
  C3. \<^verbatim>\<open>is_supported_roman\<close> cuts the symbol at its first \<open>[\<close>; for a symbol
  without whitespace, as every token of a measure line is, the result decides: empty is
  unsupported; starting with \<open>N\<close> it is supported iff it is \<open>N\<close> or \<open>N6\<close>;
  starting with \<open>It\<close>, \<open>Ger\<close> or \<open>Fr\<close> iff it is one of \<open>It6\<close>,
  \<open>Ger6/5\<close>, \<open>Ger7\<close>, \<open>Fr4/3\<close>, \<open>Fr6\<close>; starting with \<open>b\<close> or
  \<open>#\<close> iff its second character is one of \<open>I i V v\<close>; otherwise iff its first
  character is one of \<open>I i V v\<close>. For an arbitrary string the same holds of the
  part before the \<open>[\<close> with its leading and trailing whitespace removed. \<open>N7\<close> is
  unsupported and its skip reason is the extended-Neapolitan one; \<open>N6\<close> and
  \<open>Ger6/5\<close> are supported; \<open>Ger9\<close> is not.
\<close>

theorem is_supported_roman_cases:
  "(let sp = (\<lambda>c. c \<in> set [CHR 0x09, CHR 0x0A, CHR 0x0B, CHR 0x0C, CHR 0x0D, CHR 0x1C,
                                 CHR 0x1D, CHR 0x1E, CHR 0x1F, CHR 0x20, CHR 0x85, CHR 0xA0]);
        cut = takeWhile (\<lambda>c. c \<noteq> CHR ''['') s;
        supported = (\<lambda>t.
          if t = [] then False
          else if prefix ''N'' t then t = ''N'' \<or> t = ''N6''
          else if prefix ''It'' t \<or> prefix ''Ger'' t \<or> prefix ''Fr'' t
            then t = ''It6'' \<or> t = ''Ger6/5'' \<or> t = ''Ger7'' \<or> t = ''Fr4/3'' \<or> t = ''Fr6''
          else if hd t = CHR ''b'' \<or> hd t = CHR ''#''
            then 2 \<le> length t \<and> t ! 1 \<in> set ''IiVv''
          else hd t \<in> set ''IiVv'')
    in ((\<forall>c\<in>set s. \<not> sp c) \<longrightarrow> is_supported_roman s = supported cut)
       \<and> is_supported_roman s =
           supported (if CHR ''['' \<in> set s then rev (dropWhile sp (rev (dropWhile sp cut)))
                      else s))
   \<and> \<not> is_supported_roman ''N7''
   \<and> skip_reason repr ''N7''
       = ''extended Neapolitan '' @ repr ''N7'' @ '' (only N and N6 are supported)''
   \<and> is_supported_roman ''N6''
   \<and> is_supported_roman ''Ger6/5''
   \<and> \<not> is_supported_roman ''Ger9''"
proof (intro conjI)
  show "\<not> is_supported_roman ''N7''"
    unfolding is_supported_roman_general [of "''N7''"] by simp
  show "is_supported_roman ''N6''"
    unfolding is_supported_roman_general [of "''N6''"] by simp
  show "is_supported_roman ''Ger6/5''"
    unfolding is_supported_roman_general [of "''Ger6/5''"] by simp
  show "\<not> is_supported_roman ''Ger9''"
    unfolding is_supported_roman_general [of "''Ger9''"] by simp
  show "skip_reason repr ''N7''
       = ''extended Neapolitan '' @ repr ''N7'' @ '' (only N and N6 are supported)''"
    by (simp add: skip_reason_def)
  show "let sp = (\<lambda>c. c \<in> set [CHR 0x09, CHR 0x0A, CHR 0x0B, CHR 0x0C, CHR 0x0D, CHR 0x1C,
                                 CHR 0x1D, CHR 0x1E, CHR 0x1F, CHR 0x20, CHR 0x85, CHR 0xA0]);
        cut = takeWhile (\<lambda>c. c \<noteq> CHR ''['') s;
        supported = (\<lambda>t.
          if t = [] then False
          else if prefix ''N'' t then t = ''N'' \<or> t = ''N6''
          else if prefix ''It'' t \<or> prefix ''Ger'' t \<or> prefix ''Fr'' t
            then t = ''It6'' \<or> t = ''Ger6/5'' \<or> t = ''Ger7'' \<or> t = ''Fr4/3'' \<or> t = ''Fr6''
          else if hd t = CHR ''b'' \<or> hd t = CHR ''#''
            then 2 \<le> length t \<and> t ! 1 \<in> set ''IiVv''
          else hd t \<in> set ''IiVv'')
    in ((\<forall>c\<in>set s. \<not> sp c) \<longrightarrow> is_supported_roman s = supported cut)
       \<and> is_supported_roman s =
           supported (if CHR ''['' \<in> set s then rev (dropWhile sp (rev (dropWhile sp cut)))
                      else s)"
  proof -
    define sp where "sp = (\<lambda>c. c \<in> set [CHR 0x09, CHR 0x0A, CHR 0x0B, CHR 0x0C, CHR 0x0D,
        CHR 0x1C, CHR 0x1D, CHR 0x1E, CHR 0x1F, CHR 0x20, CHR 0x85, CHR 0xA0])"
    define cut where "cut = takeWhile (\<lambda>c. c \<noteq> CHR ''['') s"
    define supported where "supported = (\<lambda>t.
          if t = [] then False
          else if prefix ''N'' t then t = ''N'' \<or> t = ''N6''
          else if prefix ''It'' t \<or> prefix ''Ger'' t \<or> prefix ''Fr'' t
            then t = ''It6'' \<or> t = ''Ger6/5'' \<or> t = ''Ger7'' \<or> t = ''Fr4/3'' \<or> t = ''Fr6''
          else if hd t = CHR ''b'' \<or> hd t = CHR ''#''
            then 2 \<le> length t \<and> t ! 1 \<in> set ''IiVv''
          else hd t \<in> set ''IiVv'')"
    have strip_sp: "strip u = rev (dropWhile sp (rev (dropWhile sp u)))" for u
      unfolding sp_def by (rule strip_explicit)
    have general: "is_supported_roman s =
        supported (if CHR ''['' \<in> set s then rev (dropWhile sp (rev (dropWhile sp cut))) else s)"
      unfolding is_supported_roman_general [of s] Let_def supported_def cut_def
        strip_sp [symmetric]
      by (rule refl)
    have plain: "is_supported_roman s = supported cut" if nosp: "\<forall>c\<in>set s. \<not> sp c"
    proof (cases "CHR ''['' \<in> set s")
      case True
      have "\<forall>c\<in>set cut. \<not> sp c"
        using nosp set_takeWhileD unfolding cut_def by fast
      then have "rev (dropWhile sp (rev (dropWhile sp cut))) = cut"
        by (rule trim_no_space)
      with True general show ?thesis by simp
    next
      case False
      then have "cut = s" unfolding cut_def by (auto simp: takeWhile_eq_all_conv)
      with False general show ?thesis by simp
    qed
    show ?thesis
      unfolding Let_def sp_def [symmetric] cut_def [symmetric] supported_def [symmetric]
      using general plain by blast
  qed
qed

theorem is_supported_roman_cases_witness:
  "is_supported_roman ''V9[b9]'' \<and> is_supported_roman ''bVII'' \<and> \<not> is_supported_roman ''b''
   \<and> \<not> is_supported_roman ''[b9]''
   \<and> is_supported_roman [CHR ''N'', CHR 0xA0, CHR ''['', CHR ''b'', CHR ''9'', CHR '']'']"
proof -
  have a: "is_supported_roman ''V9[b9]''"
    using is_supported_roman_cases [of "''V9[b9]''", THEN conjunct1]
    by (simp add: Let_def)
  have b: "is_supported_roman ''bVII''"
    using is_supported_roman_cases [of "''bVII''", THEN conjunct1]
    by (simp add: Let_def)
  have c: "\<not> is_supported_roman ''b''"
    using is_supported_roman_cases [of "''b''", THEN conjunct1]
    by (simp add: Let_def)
  have d: "\<not> is_supported_roman ''[b9]''"
    using is_supported_roman_cases [of "''[b9]''", THEN conjunct1]
    by (simp add: Let_def)
  have e: "is_supported_roman [CHR ''N'', CHR 0xA0, CHR ''['', CHR ''b'', CHR ''9'', CHR '']'']"
    using is_supported_roman_cases
      [of "[CHR ''N'', CHR 0xA0, CHR ''['', CHR ''b'', CHR ''9'', CHR '']'']", THEN conjunct1]
    by (simp add: Let_def)
  from a b c d e show ?thesis by blast
qed

section \<open>Properties of the document builder\<close>








lemma round_ndigits_micro: "round_ndigits (of_int m / 10 ^ n) n = of_int m / 10 ^ n"
  by (simp add: round_ndigits_def)

lemma round_ndigits_of_int: "round_ndigits (of_int m) n = of_int m"
proof -
  have "round_ndigits (of_int (m * 10 ^ n) / 10 ^ n) n = of_int (m * 10 ^ n) / 10 ^ n"
    by (rule round_ndigits_micro)
  then show ?thesis by simp
qed

lemma round_ndigits_numeral:
  "round_ndigits (numeral k) n = numeral k" "round_ndigits 0 n = 0" "round_ndigits 1 n = 1"
  using round_ndigits_of_int [of "numeral k" n] round_ndigits_of_int [of 0 n]
    round_ndigits_of_int [of 1 n]
  by simp_all

lemma int_if_whole_of_int: "int_if_whole (of_int m) = IntVal m"
  by (simp add: int_if_whole_def int_of_float_def)

lemma int_if_whole_numeral:
  "int_if_whole (numeral k) = IntVal (numeral k)" "int_if_whole 0 = IntVal 0"
  "int_if_whole 1 = IntVal 1"
  using int_if_whole_of_int [of "numeral k"] int_if_whole_of_int [of 0] int_if_whole_of_int [of 1]
  by simp_all

lemma num_real_int_if_whole: "num_real (int_if_whole x) = x"
  by (simp add: int_if_whole_def)

lemma gap_durations_Nil: "gap_durations [] = []"
  by (simp add: gap_durations_def)

lemma gap_durations_single: "gap_durations [a] = []"
  by (simp add: gap_durations_def)

lemma gap_durations_Cons:
  "gap_durations (a # b # rest) =
     (if 0 < round_ndigits (b - a) 6 then [int_if_whole (round_ndigits (b - a) 6)] else [])
     @ gap_durations (b # rest)"
proof -
  have "[0 ..< Suc (length rest)] = 0 # map Suc [0 ..< length rest]"
    by (simp only: map_Suc_upt upt_conv_Cons zero_less_Suc)
  then have "[0 ..< length (a # b # rest) - 1] = 0 # map Suc [0 ..< length (b # rest) - 1]"
    by simp
  then show ?thesis
    unfolding gap_durations_def by (simp add: Let_def comp_def cong: if_cong)
qed

lemmas gap_eval = gap_durations_Nil gap_durations_single gap_durations_Cons

lemma build_stages:
  assumes "events \<noteq> []"
    and "dedup_events events = d0 # ds"
    and "shift_events (beat d0) (d0 # ds) total_beats = (sh, t1)"
    and "filter (\<lambda>e. is_supported_roman (roman e)) sh = kept"
    and "kept \<noteq> []"
    and "filter_short md (max t1 1) kept = fs"
    and "emit_chord_events ik fs = Inr ops"
    and "note_durations fs (max t1 1) = durs"
  shows "build_orbital_json title ik events total_beats bpm_v loop_v preset bass octave_v voices
           sustain md =
         Inr \<lparr>name = title,
              scoreTracks =
                \<lparr>bpm = bpm_v, totalBeats = total_beats_val (max t1 1), loop = loop_v,
                 score_key = ik, chordEvents = ops,
                 tracks = build_tracks preset bass octave_v voices sustain durs\<rparr>\<rparr>"
  using assms by (simp add: build_orbital_json_def)

lemma resolve_plain_I: "resolve_applied ''I'' C_major = Inr (''I'', C_major)"
  by (simp add: resolve_applied_def)

lemma supported_I: "is_supported_roman ''I''"
  by (simp add: is_supported_roman_def)







lemma round_ndigits_is_micro: "\<exists>m. round_ndigits x n = of_int m / 10 ^ n"
proof -
  define y where "y = x * 10 ^ n"
  define f where "f = floor y"
  define q where
    "q = (if y - of_int f < 1 / 2 then f
          else if 1 / 2 < y - of_int f then f + 1
          else if even f then f else f + 1)"
  have "round_ndigits x n = of_int q / 10 ^ n"
    unfolding round_ndigits_def Let_def y_def [symmetric] f_def [symmetric] q_def
    by (simp del: of_int_add)
  then show ?thesis ..
qed

lemma round_ndigits_micro_diff:
  "round_ndigits (of_int m / 10 ^ n - of_int k / 10 ^ n) n = of_int m / 10 ^ n - of_int k / 10 ^ n"
proof -
  have "(of_int m / 10 ^ n - of_int k / 10 ^ n :: real) = of_int (m - k) / 10 ^ n"
    by (simp add: diff_divide_distrib)
  then show ?thesis by (simp only: round_ndigits_micro)
qed

lemma sum_gap_durations:
  assumes "sorted_wrt (<) xs" and "\<forall>x\<in>set xs. \<exists>m. x = of_int m / 10 ^ 6" and "xs \<noteq> []"
  shows "sum_list (map num_real (gap_durations xs)) = last xs - hd xs"
  using assms
proof (induction xs rule: induct_list012)
  case 1
  then show ?case by simp
next
  case (2 a)
  then show ?case by (simp add: gap_durations_single)
next
  case (3 a b rest)
  from "3.prems" obtain m k where a: "a = of_int m / 10 ^ 6" and b: "b = of_int k / 10 ^ 6"
    by auto
  from "3.prems" have lt: "a < b" by simp
  have r: "round_ndigits (b - a) 6 = b - a"
    unfolding a b by (rule round_ndigits_micro_diff)
  have "sum_list (map num_real (gap_durations (b # rest))) = last (b # rest) - hd (b # rest)"
    using "3.prems" by (intro "3.IH"(2)) simp_all
  then show ?case
    using lt by (simp add: gap_durations_Cons r num_real_int_if_whole)
qed

lemma sorted_hd_le: "sorted xs \<Longrightarrow> x \<in> set xs \<Longrightarrow> hd xs \<le> (x :: real)"
  by (cases xs) auto

lemma sorted_le_last: "sorted xs \<Longrightarrow> x \<in> set xs \<Longrightarrow> (x :: real) \<le> last xs"
  by (induction xs) (auto split: if_splits)

lemma note_durations_sum_general:
  assumes eb: "eb = sort (remdups (sort (remdups (map (\<lambda>e. round_ndigits (beat e) 6) evs))
                                   @ [round_ndigits total_beats 6]))"
  shows "sum_list (map num_real (note_durations evs total_beats)) = round_ndigits total_beats 6
         \<or> sum_list (map num_real (note_durations evs total_beats)) = last eb - hd eb"
proof -
  have set_eb: "set eb = insert (round_ndigits total_beats 6)
                           ((\<lambda>e. round_ndigits (beat e) 6) ` set evs)"
    by (auto simp: eb)
  have "sorted eb" "distinct eb" by (simp_all add: eb)
  then have strict: "sorted_wrt (<) eb" by (simp add: strict_sorted_iff)
  have micro: "\<forall>x\<in>set eb. \<exists>m. x = of_int m / 10 ^ 6"
  proof
    fix x assume "x \<in> set eb"
    then obtain y where x: "x = round_ndigits y 6"
      unfolding set_eb by auto
    show "\<exists>m. x = of_int m / 10 ^ 6"
      unfolding x by (rule round_ndigits_is_micro)
  qed
  have ne: "eb \<noteq> []" using set_eb by auto
  have nd: "note_durations evs total_beats =
      (if gap_durations eb = [] then [FloatVal (round_ndigits total_beats 6)]
       else gap_durations eb)"
    by (simp add: note_durations_def Let_def eb)
  show ?thesis
  proof (cases "gap_durations eb = []")
    case True
    then show ?thesis by (simp add: nd)
  next
    case False
    then show ?thesis
      by (simp add: nd sum_gap_durations [OF strict micro ne])
  qed
qed

lemma note_durations_sum_total:
  assumes "\<exists>e\<in>set evs. round_ndigits (beat e) 6 = 0"
    and "\<forall>e\<in>set evs. 0 \<le> round_ndigits (beat e) 6
                      \<and> round_ndigits (beat e) 6 \<le> round_ndigits total_beats 6"
  shows "sum_list (map num_real (note_durations evs total_beats))
         = num_real (total_beats_val total_beats)"
proof -
  define rt where "rt = round_ndigits total_beats 6"
  define eb where "eb = sort (remdups (sort (remdups (map (\<lambda>e. round_ndigits (beat e) 6) evs))
                                   @ [round_ndigits total_beats 6]))"
  have target: "num_real (total_beats_val total_beats) = rt"
    by (simp add: total_beats_val_def num_real_int_if_whole rt_def)
  have set_eb: "set eb = insert rt ((\<lambda>e. round_ndigits (beat e) 6) ` set evs)"
    by (auto simp: eb_def rt_def)
  have sorted: "sorted eb" by (simp add: eb_def)
  have ne: "eb \<noteq> []" using set_eb by auto
  have zero_in: "0 \<in> set eb" using assms(1) set_eb by force
  have rt_in: "rt \<in> set eb" using set_eb by simp
  have bounds: "\<forall>x\<in>set eb. 0 \<le> x \<and> x \<le> rt"
    using assms set_eb rt_def by auto
  have "hd eb \<le> 0" using sorted zero_in by (rule sorted_hd_le)
  moreover have "0 \<le> hd eb" using bounds ne by simp
  ultimately have hd: "hd eb = 0" by simp
  have "rt \<le> last eb" using sorted rt_in by (rule sorted_le_last)
  moreover have "last eb \<le> rt" using bounds ne by simp
  ultimately have last: "last eb = rt" by simp
  from note_durations_sum_general [OF eb_def]
  show ?thesis
    unfolding target rt_def [symmetric] hd last by auto
qed

text \<open>
  C6. The note durations should add up to the \<open>totalBeats\<close> of the document. They do
  not when the first event of the piece is dropped as unsupported: the builder shifts the
  events so that the first one is at beat 0 before it drops the unsupported symbols, and
  the durations then start at the first supported event. For the measure
  \<^verbatim>\<open>m1 C: It6/V b3 I\<close> in 4/4 (events \<open>It6/V\<close> at beat 0 and \<open>I\<close> at beat 2,
  total length 4) the document has \<open>totalBeats\<close> 4 and the single duration 2.
\<close>

theorem build_durations_short_of_total:
  "build_orbital_json ''t'' C_major [chord_at 0 1 ''It6/V'', chord_at 2 1 ''I'']
     4 72 True ''pad'' None 3 6 (85 / 100) (1 / 4)
   = Inr \<lparr>name = ''t'',
          scoreTracks =
            \<lparr>bpm = 72, totalBeats = IntVal 4, loop = True, score_key = C_major,
             chordEvents = [SetRoman (IntVal 2) ''I''],
             tracks =
               [\<lparr>track_name = ''Chords'', presetFilename = ''pad'', numVoices = 6,
                 octave = 3, voicing = ''open'', sustainFraction = 85 / 100,
                 track_notes = [CurrentChord (IntVal 2)]\<rparr>]\<rparr>\<rparr>
   \<and> sum_list (map num_real [IntVal 2]) \<noteq> num_real (IntVal 4)"
proof -
  let ?n = "chord_at 0 1 ''It6/V''" and ?c = "chord_at 2 1 ''I''"
  have s1: "dedup_events [?n, ?c] = [?n, ?c]"
    by (simp add: dedup_events_def chord_at_def)
  have s2: "shift_events (beat ?n) [?n, ?c] 4 = ([?n, ?c], 4)"
    by (simp add: shift_events_def chord_at_def)
  have u: "\<not> is_supported_roman ''It6/V''"
    by (simp add: is_supported_roman_def)
  have s3: "filter (\<lambda>e. is_supported_roman (roman e)) [?n, ?c] = [?c]"
    by (simp add: supported_I u chord_at_def)
  have s4: "filter_short (1 / 4) (max 4 1) [?c] = [?c]"
    by (simp add: filter_short_def)
  have s5: "emit_chord_events C_major [?c] = Inr [SetRoman (IntVal 2) ''I'']"
    by (simp add: resolve_plain_I chord_at_def round_ndigits_numeral int_if_whole_numeral)
  have s6: "note_durations [?c] (max 4 1) = [IntVal 2]"
    by (simp add: note_durations_def gap_eval chord_at_def round_ndigits_numeral
          int_if_whole_numeral)
  have tb: "total_beats_val 4 = IntVal 4"
    by (simp add: total_beats_val_def round_ndigits_numeral int_if_whole_numeral)
  have "build_orbital_json ''t'' C_major [?n, ?c] 4 72 True ''pad'' None 3 6 (85 / 100) (1 / 4)
        = Inr \<lparr>name = ''t'',
               scoreTracks =
                 \<lparr>bpm = 72, totalBeats = total_beats_val (max 4 1), loop = True,
                  score_key = C_major,
                  chordEvents = [SetRoman (IntVal 2) ''I''],
                  tracks = build_tracks ''pad'' None 3 6 (85 / 100) [IntVal 2]\<rparr>\<rparr>"
    by (rule build_stages [OF _ s1 s2 s3 _ s4 s5 s6]) simp_all
  then show ?thesis
    by (simp add: build_tracks_def tb)
qed

lemma dedup_loop_nonempty: "acc \<noteq> [] \<or> evs \<noteq> [] \<Longrightarrow> dedup_loop acc evs \<noteq> []"
  by (induction evs arbitrary: acc) auto

lemma dedup_events_nonempty: "evs \<noteq> [] \<Longrightarrow> dedup_events evs \<noteq> []"
  by (simp add: dedup_events_def dedup_loop_nonempty)

lemma shift_events_roman:
  "filter (\<lambda>e. is_supported_roman (roman e)) (fst (shift_events s ds t)) = [] \<longleftrightarrow>
   (\<forall>e\<in>set ds. \<not> is_supported_roman (roman e))"
  by (auto simp: shift_events_def filter_empty_conv)

lemma shift_events_total:
  "snd (shift_events s ds t) = (if 1 / 10 ^ 9 < \<bar>s\<bar> then t - s else t)"
  by (simp add: shift_events_def)

text \<open>
  C7. With no events, and likewise when no event of the deduplicated list is supported,
  the builder returns the empty document: \<open>totalBeats\<close> is the maximum of 4 and the
  total length rounded to one decimal (in the second case the total length after the
  shift to zero and the floor at 1), \<open>chordEvents\<close> is the single operation
  \<open>setChord\<close> at beat 0 with degrees 0, 2, 4 and inversion 0, and there are no tracks.
\<close>

theorem build_empty_document:
  "build_orbital_json title ik [] total_beats bpm_v loop_v preset bass octave_v voices sustain md =
     Inr \<lparr>name = title,
          scoreTracks =
            \<lparr>bpm = bpm_v,
             totalBeats = FloatVal (max (round_ndigits total_beats 1) 4),
             loop = loop_v,
             score_key = ik,
             chordEvents = [SetChord (IntVal 0) [0, 2, 4] 0],
             tracks = []\<rparr>\<rparr>
   \<and> (events \<noteq> [] \<and> (\<forall>e\<in>set (dedup_events events). \<not> is_supported_roman (roman e)) \<longrightarrow>
        build_orbital_json title ik events total_beats bpm_v loop_v preset bass octave_v voices
          sustain md =
          Inr \<lparr>name = title,
               scoreTracks =
                 \<lparr>bpm = bpm_v,
                  totalBeats =
                    FloatVal
                      (max (round_ndigits
                              (max (if 1 / 10 ^ 9 < \<bar>beat (hd (dedup_events events))\<bar>
                                    then total_beats - beat (hd (dedup_events events))
                                    else total_beats) 1) 1) 4),
                  loop = loop_v,
                  score_key = ik,
                  chordEvents = [SetChord (IntVal 0) [0, 2, 4] 0],
                  tracks = []\<rparr>\<rparr>)"
proof (intro conjI impI)
  show "build_orbital_json title ik [] total_beats bpm_v loop_v preset bass octave_v voices sustain md =
     Inr \<lparr>name = title,
          scoreTracks =
            \<lparr>bpm = bpm_v,
             totalBeats = FloatVal (max (round_ndigits total_beats 1) 4),
             loop = loop_v,
             score_key = ik,
             chordEvents = [SetChord (IntVal 0) [0, 2, 4] 0],
             tracks = []\<rparr>\<rparr>"
    by (simp add: build_orbital_json_def empty_json_def)
next
  assume a: "events \<noteq> [] \<and> (\<forall>e\<in>set (dedup_events events). \<not> is_supported_roman (roman e))"
  then obtain d0 ds where d: "dedup_events events = d0 # ds"
    using dedup_events_nonempty [of events] by (cases "dedup_events events") auto
  obtain sh t1 where s: "shift_events (beat d0) (d0 # ds) total_beats = (sh, t1)"
    by (cases "shift_events (beat d0) (d0 # ds) total_beats")
  have "filter (\<lambda>e. is_supported_roman (roman e)) sh = []"
    using shift_events_roman [of "beat d0" "d0 # ds" total_beats] a d s by simp
  moreover have "t1 = (if 1 / 10 ^ 9 < \<bar>beat d0\<bar> then total_beats - beat d0 else total_beats)"
    using shift_events_total [of "beat d0" "d0 # ds" total_beats] s by simp
  ultimately show "build_orbital_json title ik events total_beats bpm_v loop_v preset bass octave_v voices
          sustain md =
          Inr \<lparr>name = title,
               scoreTracks =
                 \<lparr>bpm = bpm_v,
                  totalBeats =
                    FloatVal
                      (max (round_ndigits
                              (max (if 1 / 10 ^ 9 < \<bar>beat (hd (dedup_events events))\<bar>
                                    then total_beats - beat (hd (dedup_events events))
                                    else total_beats) 1) 1) 4),
                  loop = loop_v,
                  score_key = ik,
                  chordEvents = [SetChord (IntVal 0) [0, 2, 4] 0],
                  tracks = []\<rparr>\<rparr>"
    using a d s by (simp add: build_orbital_json_def empty_json_def)
qed

theorem build_empty_document_witness:
  "build_orbital_json ''t'' C_major [] (83 / 10) 72 True ''pad'' None 3 6 (85 / 100) (1 / 4) =
     Inr \<lparr>name = ''t'',
          scoreTracks =
            \<lparr>bpm = 72, totalBeats = FloatVal (83 / 10), loop = True, score_key = C_major,
             chordEvents = [SetChord (IntVal 0) [0, 2, 4] 0], tracks = []\<rparr>\<rparr>
   \<and> build_orbital_json ''t'' C_major [] 2 72 True ''pad'' None 3 6 (85 / 100) (1 / 4) =
     Inr \<lparr>name = ''t'',
          scoreTracks =
            \<lparr>bpm = 72, totalBeats = FloatVal 4, loop = True, score_key = C_major,
             chordEvents = [SetChord (IntVal 0) [0, 2, 4] 0], tracks = []\<rparr>\<rparr>
   \<and> build_orbital_json ''t'' C_major [chord_at 2 1 ''N7''] 8 72 True ''pad'' None 3 6
       (85 / 100) (1 / 4) =
     Inr \<lparr>name = ''t'',
          scoreTracks =
            \<lparr>bpm = 72, totalBeats = FloatVal 6, loop = True, score_key = C_major,
             chordEvents = [SetChord (IntVal 0) [0, 2, 4] 0], tracks = []\<rparr>\<rparr>"
proof -
  have r: "round_ndigits (83 / 10) 1 = 83 / 10"
    using round_ndigits_micro [of 83 1] by simp
  have d: "dedup_events [chord_at 2 1 ''N7''] = [chord_at 2 1 ''N7'']"
    by (simp add: dedup_events_def)
  have u: "\<not> is_supported_roman ''N7''"
    by (simp add: is_supported_roman_def)
  have unsupported: "[chord_at 2 1 ''N7''] \<noteq> [] \<and>
      (\<forall>e\<in>set (dedup_events [chord_at 2 1 ''N7'']). \<not> is_supported_roman (roman e))"
    unfolding d by (simp add: u chord_at_def)
  have b1: "build_orbital_json ''t'' C_major [] (83 / 10) 72 True ''pad'' None 3 6 (85 / 100) (1 / 4) =
     Inr \<lparr>name = ''t'',
          scoreTracks =
            \<lparr>bpm = 72, totalBeats = FloatVal (83 / 10), loop = True, score_key = C_major,
             chordEvents = [SetChord (IntVal 0) [0, 2, 4] 0], tracks = []\<rparr>\<rparr>"
    using build_empty_document [of "''t''" C_major "83 / 10" 72 True "''pad''" None 3 6
        "85 / 100" "1 / 4", THEN conjunct1] r
    by simp
  have b2: "build_orbital_json ''t'' C_major [] 2 72 True ''pad'' None 3 6 (85 / 100) (1 / 4) =
     Inr \<lparr>name = ''t'',
          scoreTracks =
            \<lparr>bpm = 72, totalBeats = FloatVal 4, loop = True, score_key = C_major,
             chordEvents = [SetChord (IntVal 0) [0, 2, 4] 0], tracks = []\<rparr>\<rparr>"
    using build_empty_document [of "''t''" C_major 2 72 True "''pad''" None 3 6
        "85 / 100" "1 / 4", THEN conjunct1]
    by (simp add: round_ndigits_numeral)
  have b3: "build_orbital_json ''t'' C_major [chord_at 2 1 ''N7''] 8 72 True ''pad'' None 3 6
       (85 / 100) (1 / 4) =
     Inr \<lparr>name = ''t'',
          scoreTracks =
            \<lparr>bpm = 72, totalBeats = FloatVal 6, loop = True, score_key = C_major,
             chordEvents = [SetChord (IntVal 0) [0, 2, 4] 0], tracks = []\<rparr>\<rparr>"
    using build_empty_document [of "''t''" C_major 8 72 True "''pad''" None 3 6
        "85 / 100" "1 / 4" "[chord_at 2 1 ''N7'']", THEN conjunct2, rule_format,
        OF unsupported]
    unfolding d by (simp add: chord_at_def round_ndigits_numeral)
  from b1 b2 b3 show ?thesis by blast
qed

text \<open>
  C8. \<^verbatim>\<open>filter_by_measures\<close> keeps the events whose measure lies in the inclusive
  range. When none does, it returns the given events and total length unchanged, without
  an error. Otherwise the new total length is the span from the first to the last kept
  beat plus the gap between the last two kept beats, or plus 4 when only one event is
  kept.
\<close>

theorem filter_by_measures_range:
  "filter_by_measures events start_m end_m total_beats fs =
     (let kept = filter (\<lambda>e. start_m \<le> measure_no e \<and> measure_no e \<le> end_m) events in
      if kept = [] then (events, total_beats)
      else (kept,
            (beat (last kept) - beat (hd kept))
            + (if 2 \<le> length kept then beat (last kept) - beat (last (butlast kept)) else 4)))"
proof -
  define kept where "kept = filter (\<lambda>e. start_m \<le> measure_no e \<and> measure_no e \<le> end_m) events"
  show ?thesis
  proof (cases "kept = []")
    case True
    then show ?thesis
      unfolding filter_by_measures_def kept_def [symmetric] Let_def by simp
  next
    case False
    then have h: "kept ! 0 = hd kept" and l: "kept ! (length kept - 1) = last kept"
      by (simp_all add: hd_conv_nth last_conv_nth)
    have b: "2 \<le> length kept \<Longrightarrow> kept ! (length kept - 2) = last (butlast kept)"
    proof -
      assume len: "2 \<le> length kept"
      then have "butlast kept \<noteq> []" by (cases kept) auto
      then have "last (butlast kept) = butlast kept ! (length (butlast kept) - 1)"
        by (rule last_conv_nth)
      also have "\<dots> = kept ! (length kept - 2)"
        using len by (simp add: nth_butlast numeral_2_eq_2)
      finally show ?thesis by simp
    qed
    show ?thesis
      unfolding filter_by_measures_def kept_def [symmetric] Let_def h l
      using False b by simp
  qed
qed

theorem filter_by_measures_range_witness:
  "filter_by_measures
     [chord_at 0 1 ''I'', chord_at 4 2 ''V'', chord_at 8 3 ''I'', chord_at 12 4 ''IV'']
     2 3 16 ()
   = ([chord_at 4 2 ''V'', chord_at 8 3 ''I''], 8)
   \<and> filter_by_measures [chord_at 0 1 ''I'', chord_at 4 2 ''V''] 7 9 8 ()
     = ([chord_at 0 1 ''I'', chord_at 4 2 ''V''], 8)
   \<and> filter_by_measures [chord_at 0 1 ''I'', chord_at 4 2 ''V''] 2 2 8 ()
     = ([chord_at 4 2 ''V''], 4)"
  using filter_by_measures_range [of "[chord_at 0 1 ''I'', chord_at 4 2 ''V'',
      chord_at 8 3 ''I'', chord_at 12 4 ''IV'']" 2 3 16 "()"]
    filter_by_measures_range [of "[chord_at 0 1 ''I'', chord_at 4 2 ''V'']" 7 9 8 "()"]
    filter_by_measures_range [of "[chord_at 0 1 ''I'', chord_at 4 2 ''V'']" 2 2 8 "()"]
  by (simp add: chord_at_def)

section \<open>Properties of the ribbon mesh pass\<close>

lemma project_corners_all:
  "project_corners c3 =
     (if list_all (\<lambda>c. \<not> lateral c < 1 / 100) c3 then Some (map project c3) else None)"
  by (induction c3) auto

lemma corners_3d_nonempty: "map lateral (corners_3d th xs cell) \<noteq> []"
  by (simp add: corners_3d_def)

lemma fold_max_Max: "ys \<noteq> [] \<Longrightarrow> fold max (tl ys) (hd ys) = Max (set ys)"
  by (cases ys) (simp_all add: Max.set_eq_fold del: set_simps)

lemma mesh_step_kept:
  "mesh_step th xs cell (quads, colors, depths) =
     (if cell_kept th xs cell
      then (quads @ [map project (corners_3d th xs cell)],
            colors @ [avg_theta th cell],
            depths @ [avg_depth th xs cell])
      else (quads, colors, depths))"
  unfolding mesh_step_def Let_def cell_kept_def
    fold_max_Max [OF corners_3d_nonempty] project_corners_all
  by simp

lemma fold_mesh_step:
  "fold (mesh_step th xs) cs (quads, colors, depths) =
     (quads @ map (\<lambda>cell. map project (corners_3d th xs cell)) (filter (cell_kept th xs) cs),
      colors @ map (avg_theta th) (filter (cell_kept th xs) cs),
      depths @ map (avg_depth th xs) (filter (cell_kept th xs) cs))"
  by (induction cs arbitrary: quads colors depths) (simp_all add: mesh_step_kept)

lemma mesh_pass_kept:
  "mesh_pass th xs =
     (map (\<lambda>cell. map project (corners_3d th xs cell)) (filter (cell_kept th xs) (cells th xs)),
      map (avg_theta th) (filter (cell_kept th xs) (cells th xs)),
      map (avg_depth th xs) (filter (cell_kept th xs) (cells th xs)))"
  by (simp add: mesh_pass_def fold_mesh_step)

lemma stable_argsort_ok: "argsort_ok stable_argsort"
proof -
  have "set (stable_argsort ds) = {0 ..< length ds}" for ds
    by (simp add: stable_argsort_def)
  moreover have "length (stable_argsort ds) = length ds" for ds
    by (simp add: stable_argsort_def)
  moreover have "sorted (map (\<lambda>i. ds ! i) (stable_argsort ds))" for ds
    by (simp add: stable_argsort_def)
  ultimately show ?thesis by (simp add: argsort_ok_def)
qed

lemma draw_facts:
  assumes ok: "argsort_ok argsort"
  shows "draw_quads argsort th xs =
           map (\<lambda>cell. map project (corners_3d th xs cell)) (drawn_cells argsort th xs)"
    and "set (drawn_cells argsort th xs) = set (filter (cell_kept th xs) (cells th xs))"
    and "length (drawn_cells argsort th xs) = length (filter (cell_kept th xs) (cells th xs))"
    and "sorted_wrt (\<lambda>a b. avg_depth th xs b \<le> avg_depth th xs a) (drawn_cells argsort th xs)"
proof -
  define K where "K = filter (cell_kept th xs) (cells th xs)"
  define depths where "depths = map (avg_depth th xs) K"
  define order where "order = rev (argsort depths)"
  have len: "length depths = length K" by (simp add: depths_def)
  from ok have set_o: "set order = {0 ..< length K}"
    and len_o: "length order = length K"
    and srt: "sorted (map (\<lambda>i. depths ! i) (argsort depths))"
    by (simp_all add: argsort_ok_def order_def len)
  have ord: "draw_order argsort th xs = order"
    by (simp add: draw_order_def mesh_pass_kept order_def depths_def K_def)
  have drawn: "drawn_cells argsort th xs = map (\<lambda>i. K ! i) order"
    by (simp add: drawn_cells_def ord K_def)
  have in_range: "i \<in> set order \<Longrightarrow> i < length K" for i
    using set_o by simp
  show "draw_quads argsort th xs =
           map (\<lambda>cell. map project (corners_3d th xs cell)) (drawn_cells argsort th xs)"
    unfolding drawn draw_quads_def mesh_pass_kept ord K_def [symmetric]
    using in_range by simp
  have "set (map (\<lambda>i. K ! i) order) = (\<lambda>i. K ! i) ` {0 ..< length K}"
    by (simp add: set_o)
  also have "\<dots> = set K"
    by (auto simp: set_conv_nth)
  finally have "set (drawn_cells argsort th xs) = set K"
    by (simp only: drawn)
  then show "set (drawn_cells argsort th xs) = set (filter (cell_kept th xs) (cells th xs))"
    by (simp only: K_def)
  have "length (drawn_cells argsort th xs) = length K"
    by (simp add: drawn len_o)
  then show "length (drawn_cells argsort th xs) = length (filter (cell_kept th xs) (cells th xs))"
    by (simp only: K_def)
  show "sorted_wrt (\<lambda>a b. avg_depth th xs b \<le> avg_depth th xs a) (drawn_cells argsort th xs)"
  proof -
    have eq: "map (avg_depth th xs) (map (\<lambda>i. K ! i) order) = map (\<lambda>i. depths ! i) order"
      using in_range by (simp add: depths_def)
    have "sorted_wrt (\<lambda>a b. b \<le> a) (map (\<lambda>i. depths ! i) order)"
      using srt by (simp add: order_def rev_map [symmetric] sorted_wrt_rev)
    then have "sorted_wrt (\<lambda>a b. b \<le> a) (map (avg_depth th xs) (map (\<lambda>i. K ! i) order))"
      by (simp only: eq)
    then show ?thesis
      by (simp only: drawn sorted_wrt_map)
  qed
qed

lemma cells_product: "cells th xs = List.product [0 ..< length xs - 1] [0 ..< length th - 1]"
  by (simp add: cells_def product_concat_map)

lemma set_cells: "set (cells th xs) = {(i, j). i < length xs - 1 \<and> j < length th - 1}"
  by (auto simp: cells_product)

lemma distinct_cells: "distinct (cells th xs)"
  by (simp add: cells_product distinct_product)

lemma drawn_cells_distinct:
  assumes ok: "argsort_ok argsort"
  shows "distinct (drawn_cells argsort th xs)"
proof -
  define K where "K = filter (cell_kept th xs) (cells th xs)"
  define depths where "depths = map (avg_depth th xs) K"
  define order where "order = rev (argsort depths)"
  have len: "length depths = length K" by (simp add: depths_def)
  from ok have set_o: "set order = {0 ..< length K}" and len_o: "length order = length K"
    by (simp_all add: argsort_ok_def order_def len)
  have "card (set order) = length order" by (simp add: set_o len_o)
  then have d_o: "distinct order" by (rule card_distinct)
  have dK: "distinct K" by (simp add: K_def distinct_cells)
  have ord: "draw_order argsort th xs = order"
    by (simp add: draw_order_def mesh_pass_kept order_def depths_def K_def)
  have drawn: "drawn_cells argsort th xs = map (\<lambda>i. K ! i) order"
    by (simp add: drawn_cells_def ord K_def)
  have "inj_on (\<lambda>i. K ! i) (set order)"
    using dK set_o by (intro inj_on_nth) simp_all
  with d_o show ?thesis by (simp add: drawn distinct_map)
qed

lemma corners_3d_explicit:
  "corners_3d th xs (i, j) =
     [(xs ! i, 4 * cos (th ! j), 4 * sin (th ! j)),
      (xs ! (i + 1), 4 * cos (th ! j), 4 * sin (th ! j)),
      (xs ! (i + 1), 4 * cos (th ! (j + 1)), 4 * sin (th ! (j + 1))),
      (xs ! i, 4 * cos (th ! (j + 1)), 4 * sin (th ! (j + 1)))]"
  by (simp add: corners_3d_def radius_def Let_def)

lemma length_corners_3d: "length (corners_3d th xs cell) = 4"
  by (simp add: corners_3d_def)

lemma avg_depth_explicit:
  "avg_depth th xs cell =
     (\<Sum>c\<leftarrow>corners_3d th xs cell.
         sqrt ((fst c)\<^sup>2 + (fst (snd c))\<^sup>2 + (snd (snd c) - 15 / 4)\<^sup>2)) / 4"
  by (simp add: avg_depth_def Let_def length_corners_3d norm3_def vec_sub_def cam_def
        radius_def)

lemma mean_less:
  fixes a b c d :: real
  assumes "c < b" and "d < a"
  shows "(a + b + c + d) / 4 < (a + b + b + a) / 4"
  using assms by simp

lemma two_sorted:
  assumes "set l = {a, b}" and "distinct l" and "a \<noteq> b" and "sorted_wrt R l" and "\<not> R b a"
  shows "l = [a, b]"
proof -
  have "length l = card (set l)" using assms(2) by (simp add: distinct_card)
  also have "\<dots> = 2" using assms(1,3) by simp
  finally obtain x y where l: "l = [x, y]"
    by (cases l; cases "tl l"; cases "tl (tl l)") auto
  with assms show ?thesis by (auto simp: doubleton_eq_iff)
qed

text \<open>
  C9. For any result of \<^verbatim>\<open>np.argsort\<close>, the draw list consists of the projected quads
  of the cells \<open>drawn_cells\<close>, each drawn once. The drawn cells are exactly the cells
  \<open>(i, j)\<close> of the mesh (\<open>i\<close> below the number of axial samples minus one, \<open>j\<close> below the
  number of angular samples minus one) that pass both tests: a cell whose largest
  lateral corner coordinate is below 0.05, or one of whose corners has a lateral
  coordinate below 0.01, is not drawn, and every corner of a drawn cell has a lateral
  coordinate of at least 0.01. Along the draw list the depth never increases, so that
  the farthest quad comes first. The depth of a cell is the mean distance of its four
  corners from the camera at \<open>(0, 0, 15 / 4)\<close>; the corners are the points
  \<open>(x, 4 cos t, 4 sin t)\<close> at the two axial and the two angular samples of the cell,
  and the lateral coordinate of a point is its second component. This holds for all
  sample arrays, in particular for the arrays \<open>theta\<close> and \<open>xs_samples\<close> of the script.
\<close>

theorem painter_draw_list:
  assumes "argsort_ok argsort"
  shows "draw_quads argsort th xs =
           map (\<lambda>cell. map project (corners_3d th xs cell)) (drawn_cells argsort th xs)
         \<and> distinct (drawn_cells argsort th xs)
         \<and> set (drawn_cells argsort th xs) =
             {cell. fst cell < length xs - 1 \<and> snd cell < length th - 1
                    \<and> \<not> Max (set (map lateral (corners_3d th xs cell))) < 5 / 100
                    \<and> (\<forall>c\<in>set (corners_3d th xs cell). \<not> lateral c < 1 / 100)}
         \<and> (\<forall>cell. Max (set (map lateral (corners_3d th xs cell))) < 5 / 100
                     \<or> (\<exists>c\<in>set (corners_3d th xs cell). lateral c < 1 / 100)
                   \<longrightarrow> cell \<notin> set (drawn_cells argsort th xs))
         \<and> (\<forall>cell\<in>set (drawn_cells argsort th xs).
               \<forall>c\<in>set (corners_3d th xs cell). 1 / 100 \<le> lateral c)
         \<and> sorted_wrt (\<lambda>a b. avg_depth th xs b \<le> avg_depth th xs a)
              (drawn_cells argsort th xs)
         \<and> (\<forall>cell. avg_depth th xs cell =
               (\<Sum>c\<leftarrow>corners_3d th xs cell.
                   sqrt ((fst c)\<^sup>2 + (fst (snd c))\<^sup>2 + (snd (snd c) - 15 / 4)\<^sup>2)) / 4)
         \<and> (\<forall>i j. corners_3d th xs (i, j) =
               [(xs ! i, 4 * cos (th ! j), 4 * sin (th ! j)),
                (xs ! (i + 1), 4 * cos (th ! j), 4 * sin (th ! j)),
                (xs ! (i + 1), 4 * cos (th ! (j + 1)), 4 * sin (th ! (j + 1))),
                (xs ! i, 4 * cos (th ! (j + 1)), 4 * sin (th ! (j + 1)))])
         \<and> (\<forall>x y z. lateral (x, y, z) = y)"
proof -
  note facts = draw_facts [OF assms, of th xs]
  have set_eq: "set (drawn_cells argsort th xs) =
             {cell. fst cell < length xs - 1 \<and> snd cell < length th - 1
                    \<and> \<not> Max (set (map lateral (corners_3d th xs cell))) < 5 / 100
                    \<and> (\<forall>c\<in>set (corners_3d th xs cell). \<not> lateral c < 1 / 100)}"
    unfolding facts(2) by (auto simp: set_cells cell_kept_def list_all_iff)
  have excluded: "\<forall>cell. Max (set (map lateral (corners_3d th xs cell))) < 5 / 100
                     \<or> (\<exists>c\<in>set (corners_3d th xs cell). lateral c < 1 / 100)
                   \<longrightarrow> cell \<notin> set (drawn_cells argsort th xs)"
    unfolding set_eq by blast
  have far_enough: "\<forall>cell\<in>set (drawn_cells argsort th xs).
               \<forall>c\<in>set (corners_3d th xs cell). 1 / 100 \<le> lateral c"
    unfolding set_eq by (auto simp: not_less)
  have lat: "\<forall>x y z. lateral (x, y, z) = y"
    by (simp add: lateral_def)
  have quads: "draw_quads argsort th xs =
           map (\<lambda>cell. map project (corners_3d th xs cell)) (drawn_cells argsort th xs)"
    by (rule facts(1))
  have dist: "distinct (drawn_cells argsort th xs)"
    by (rule drawn_cells_distinct [OF assms])
  have srt: "sorted_wrt (\<lambda>a b. avg_depth th xs b \<le> avg_depth th xs a)
              (drawn_cells argsort th xs)"
    by (rule facts(4))
  have depth: "\<forall>cell. avg_depth th xs cell =
               (\<Sum>c\<leftarrow>corners_3d th xs cell.
                   sqrt ((fst c)\<^sup>2 + (fst (snd c))\<^sup>2 + (snd (snd c) - 15 / 4)\<^sup>2)) / 4"
    by (intro allI) (rule avg_depth_explicit)
  have corners: "\<forall>i j. corners_3d th xs (i, j) =
               [(xs ! i, 4 * cos (th ! j), 4 * sin (th ! j)),
                (xs ! (i + 1), 4 * cos (th ! j), 4 * sin (th ! j)),
                (xs ! (i + 1), 4 * cos (th ! (j + 1)), 4 * sin (th ! (j + 1))),
                (xs ! i, 4 * cos (th ! (j + 1)), 4 * sin (th ! (j + 1)))]"
    by (intro allI) (rule corners_3d_explicit)
  show ?thesis
    by (intro conjI) (rule quads, rule dist, rule set_eq, rule excluded, rule far_enough,
      rule srt, rule depth, rule corners, rule lat)
qed

theorem painter_draw_list_witness:
  "argsort_ok stable_argsort
   \<and> drawn_cells stable_argsort [0, 0, pi / 6] [0, 1] = [(0, 0), (0, 1)]
   \<and> avg_depth [0, 0, pi / 6] [0, 1] (0, 1) < avg_depth [0, 0, pi / 6] [0, 1] (0, 0)
   \<and> \<not> Max (set (map lateral (corners_3d [0, pi / 2] [0, 1] (0, 0)))) < 5 / 100
   \<and> (0, 0) \<notin> set (drawn_cells stable_argsort [0, pi / 2] [0, 1])"
proof -
  let ?th = "[0, 0, pi / 6] :: real list" and ?xs = "[0, 1] :: real list"
  note two = painter_draw_list [OF stable_argsort_ok, of ?th ?xs]
  note bent = painter_draw_list [OF stable_argsort_ok, of "[0, pi / 2]" ?xs]
  have lat: "lateral (x, y, z) = y" for x y z :: real
    using two by blast
  have c0: "corners_3d ?th ?xs (0, 0) = [(0, 4, 0), (1, 4, 0), (1, 4, 0), (0, 4, 0)]"
    using two [THEN conjunct2, THEN conjunct2, THEN conjunct2, THEN conjunct2, THEN conjunct2,
      THEN conjunct2, THEN conjunct2, THEN conjunct1, rule_format, of 0 0]
    by simp
  have c1: "corners_3d ?th ?xs (0, 1) =
      [(0, 4, 0), (1, 4, 0), (1, 4 * (sqrt 3 / 2), 2), (0, 4 * (sqrt 3 / 2), 2)]"
    using two [THEN conjunct2, THEN conjunct2, THEN conjunct2, THEN conjunct2, THEN conjunct2,
      THEN conjunct2, THEN conjunct2, THEN conjunct1, rule_format, of 0 1]
    by (simp add: cos_30 sin_30)
  have sq: "(4 * (sqrt 3 / 2))\<^sup>2 = (12 :: real)"
    by (simp add: power2_eq_square)
  have d0: "avg_depth ?th ?xs (0, 0) = (sqrt (481 / 16) + sqrt (497 / 16) + sqrt (497 / 16)
      + sqrt (481 / 16)) / 4"
    using two [THEN conjunct2, THEN conjunct2, THEN conjunct2, THEN conjunct2, THEN conjunct2,
      THEN conjunct2, THEN conjunct1, rule_format, of "(0, 0)"]
    unfolding c0 by (simp add: power2_eq_square)
  have d1: "avg_depth ?th ?xs (0, 1) = (sqrt (481 / 16) + sqrt (497 / 16) + sqrt (257 / 16)
      + sqrt (241 / 16)) / 4"
    using two [THEN conjunct2, THEN conjunct2, THEN conjunct2, THEN conjunct2, THEN conjunct2,
      THEN conjunct2, THEN conjunct1, rule_format, of "(0, 1)"]
    unfolding c1 by (simp add: sq) (simp add: power2_eq_square)
  have "sqrt (257 / 16) < sqrt (497 / 16)" "sqrt (241 / 16) < sqrt (481 / 16)"
    by (simp_all del: real_sqrt_divide)
  then have closer: "avg_depth ?th ?xs (0, 1) < avg_depth ?th ?xs (0, 0)"
    unfolding d0 d1 by (rule mean_less)
  have "1 \<le> sqrt 3" by simp
  then have s3: "\<not> 200 * sqrt 3 < 1" by linarith
  have k0: "\<not> Max (set (map lateral (corners_3d ?th ?xs (0, 0)))) < 5 / 100
      \<and> (\<forall>c\<in>set (corners_3d ?th ?xs (0, 0)). \<not> lateral c < 1 / 100)"
    unfolding c0 by (simp add: lat)
  have "(4 :: real) \<le> Max (set (map lateral (corners_3d ?th ?xs (0, 1))))"
    unfolding c1 by (intro Max_ge) (simp_all add: lat)
  then have k1: "\<not> Max (set (map lateral (corners_3d ?th ?xs (0, 1)))) < 5 / 100
      \<and> (\<forall>c\<in>set (corners_3d ?th ?xs (0, 1)). \<not> lateral c < 1 / 100)"
    unfolding c1 using s3 by (auto simp: lat)
  have set_two: "set (drawn_cells stable_argsort ?th ?xs) = {(0, 0), (0, 1)}"
  proof -
    have "set (drawn_cells stable_argsort ?th ?xs) =
             {cell. fst cell < length ?xs - 1 \<and> snd cell < length ?th - 1
                    \<and> \<not> Max (set (map lateral (corners_3d ?th ?xs cell))) < 5 / 100
                    \<and> (\<forall>c\<in>set (corners_3d ?th ?xs cell). \<not> lateral c < 1 / 100)}"
      using two by blast
    also have "\<dots> = {(0, 0), (0, 1)}"
    proof (intro set_eqI iffI)
      fix cell :: "nat \<times> nat"
      assume "cell \<in> {cell. fst cell < length ?xs - 1 \<and> snd cell < length ?th - 1
                    \<and> \<not> Max (set (map lateral (corners_3d ?th ?xs cell))) < 5 / 100
                    \<and> (\<forall>c\<in>set (corners_3d ?th ?xs cell). \<not> lateral c < 1 / 100)}"
      then have "fst cell = 0" "snd cell = 0 \<or> snd cell = 1" by auto
      then show "cell \<in> {(0, 0), (0, 1)}" by (cases cell) auto
    next
      fix cell :: "nat \<times> nat"
      assume "cell \<in> {(0, 0), (0, 1)}"
      then have "cell = (0, 0) \<or> cell = (0, 1)" by simp
      then show "cell \<in> {cell. fst cell < length ?xs - 1 \<and> snd cell < length ?th - 1
                    \<and> \<not> Max (set (map lateral (corners_3d ?th ?xs cell))) < 5 / 100
                    \<and> (\<forall>c\<in>set (corners_3d ?th ?xs cell). \<not> lateral c < 1 / 100)}"
        using k0 k1 by auto
    qed
    finally show ?thesis .
  qed
  have dist: "distinct (drawn_cells stable_argsort ?th ?xs)"
    using two by blast
  have srt: "sorted_wrt (\<lambda>a b. avg_depth ?th ?xs b \<le> avg_depth ?th ?xs a)
      (drawn_cells stable_argsort ?th ?xs)"
    using two by blast
  have order: "drawn_cells stable_argsort ?th ?xs = [(0, 0), (0, 1)]"
    using set_two dist _ srt
  proof (rule two_sorted)
    show "(0 :: nat, 0 :: nat) \<noteq> (0, 1)" by simp
    show "\<not> avg_depth ?th ?xs (0, 0) \<le> avg_depth ?th ?xs (0, 1)"
      using closer by simp
  qed
  have cb: "corners_3d [0, pi / 2] ?xs (0, 0) = [(0, 4, 0), (1, 4, 0), (1, 0, 4), (0, 0, 4)]"
    using bent [THEN conjunct2, THEN conjunct2, THEN conjunct2, THEN conjunct2, THEN conjunct2,
      THEN conjunct2, THEN conjunct2, THEN conjunct1, rule_format, of 0 0]
    by simp
  have big: "\<not> Max (set (map lateral (corners_3d [0, pi / 2] ?xs (0, 0)))) < 5 / 100"
    unfolding cb by (simp add: lat)
  have "\<exists>c\<in>set (corners_3d [0, pi / 2] ?xs (0, 0)). lateral c < 1 / 100"
    unfolding cb by (simp add: lat)
  with bent have gone: "(0, 0) \<notin> set (drawn_cells stable_argsort [0, pi / 2] ?xs)"
    by blast
  from stable_argsort_ok order closer big gone show ?thesis by blast
qed


end
